theory Spec2Isabelle
  imports Main "HOL-Library.Word" "HOL-Library.Multiset"
begin

unbundle bit_operations_syntax

section \<open>The wait event (task\_wait\_event.h)\<close>

text \<open>
  \<^verbatim>\<open>enum wait_type { task_finished = 1, task_available = 2 }\<close>: the two event bits.
\<close>

definition task_finished :: "32 word" where
  "task_finished = 1"

definition task_available :: "32 word" where
  "task_available = 2"

text \<open>
  The class holds raw storage for a mutex and a condition variable, the \<^verbatim>\<open>int\<close>
  bit mask of pending events and the flag of the lazy initialisation. The mask is a C++
  \<^verbatim>\<open>int\<close>, here a 32-bit word. The mutex and the condition variable exist only
  once \<^verbatim>\<open>init()\<close> has run; an operation that locks the mutex before that
  touches an object that was never constructed, which the model reports as \<open>None\<close>.
\<close>

record task_wait_event =
  event_mask :: "32 word"
  initialized :: bool

text \<open>The constructor: \<^verbatim>\<open>event_mask(0), initialized(false)\<close>.\<close>

definition new_task_wait_event :: task_wait_event where
  "new_task_wait_event = \<lparr>event_mask = 0, initialized = False\<rparr>"

text \<open>\<^verbatim>\<open>init()\<close>: constructs mutex and condition variable on the first call only.\<close>

definition init :: "task_wait_event \<Rightarrow> task_wait_event" where
  "init w = (if \<not> initialized w then w\<lparr>initialized := True\<rparr> else w)"

text \<open>
  \<^verbatim>\<open>try_wait(event)\<close>, under the lock:
  \<^verbatim>\<open>int result = event_mask & event; event_mask &= ~event; return result != 0;\<close>
  The result is the returned flag and the event after the call.
\<close>

definition try_wait :: "32 word \<Rightarrow> task_wait_event \<Rightarrow> (bool \<times> task_wait_event) option" where
  "try_wait event w =
     (if initialized w
      then (let result = event_mask w AND event;
                w' = w\<lparr>event_mask := event_mask w AND NOT event\<rparr>
            in Some (result \<noteq> 0, w'))
      else None)"

text \<open>
  \<^verbatim>\<open>signal(event)\<close>, under the lock: \<^verbatim>\<open>event_mask |= event\<close>, then the
  notification of one waiter (which has no effect on the fields).
\<close>

definition signal :: "32 word \<Rightarrow> task_wait_event \<Rightarrow> task_wait_event option" where
  "signal event w =
     (if initialized w then Some (w\<lparr>event_mask := event_mask w OR event\<rparr>) else None)"

text \<open>
  \<^verbatim>\<open>wait()\<close>: blocks while the mask is zero, then returns the mask and clears it.
  With no other thread signalling, a zero mask blocks for ever: \<open>None\<close>.
\<close>

definition wait_event :: "task_wait_event \<Rightarrow> (32 word \<times> task_wait_event) option" where
  "wait_event w =
     (if initialized w \<and> event_mask w \<noteq> 0
      then Some (event_mask w, w\<lparr>event_mask := 0\<rparr>)
      else None)"


section \<open>The aligned array (aligned\_alloc.h)\<close>

text \<open>
  What the sized constructor of \<^verbatim>\<open>aligned_array<T>\<close> does to memory, as a list
  of events: the allocation of the block, the default construction of the element at an
  index, the run of the destructor on the element at an index, and the release of the
  block.
\<close>

datatype mem_event =
    Alloc nat
  | Construct nat
  | Destruct nat
  | Free

text \<open>
  The default constructor of \<^verbatim>\<open>T\<close> is the parameter \<open>ctor\<close>: \<open>ctor i\<close> is
  \<open>Some e\<close> when the construction of the element at index \<open>i\<close> throws \<open>e\<close>.

  The loop of the \<^verbatim>\<open>try\<close> block,
  \<^verbatim>\<open>for (i = 0; i < length; i++) new(ptr + i) T;\<close>
  returns the events and, when a constructor threw, the exception with the value of
  \<^verbatim>\<open>i\<close> at that moment (\<^verbatim>\<open>i\<close> is declared outside the \<^verbatim>\<open>try\<close>).
\<close>

function construct_loop :: "(nat \<Rightarrow> 'e option) \<Rightarrow> nat \<Rightarrow> nat \<Rightarrow> mem_event list \<times> ('e \<times> nat) option" where
  "construct_loop ctor len i =
     (if i < len
      then (case ctor i of
              Some e \<Rightarrow> ([], Some (e, i))
            | None \<Rightarrow> (let (evs, r) = construct_loop ctor len (Suc i) in (Construct i # evs, r)))
      else ([], None))"
  by pat_completeness auto
termination
  by (relation "measure (\<lambda>(ctor, len, i). len - i)") auto

text \<open>
  The loop of the handler,
  \<^verbatim>\<open>for (std::size_t j = 0; j < i; j++) ptr[i].~T();\<close>
  Each round runs the destructor on the element at index \<^verbatim>\<open>i\<close>, as the source has it.
\<close>

function destroy_loop :: "nat \<Rightarrow> nat \<Rightarrow> mem_event list" where
  "destroy_loop i j = (if j < i then Destruct i # destroy_loop i (Suc j) else [])"
  by pat_completeness auto
termination
  by (relation "measure (\<lambda>(i, j). i - j)") auto

text \<open>
  \<^verbatim>\<open>explicit aligned_array(std::size_t length)\<close>: the events, and either the
  rethrown exception (\<open>Inl\<close>) or the length of the constructed array (\<open>Inr\<close>).
  The allocation, which stands before the \<^verbatim>\<open>try\<close> block, is taken to succeed.
\<close>

definition aligned_array :: "(nat \<Rightarrow> 'e option) \<Rightarrow> nat \<Rightarrow> mem_event list \<times> ('e + nat)" where
  "aligned_array ctor len =
     (case construct_loop ctor len 0 of
        (evs, None) \<Rightarrow> (Alloc len # evs, Inr len)
      | (evs, Some (e, i)) \<Rightarrow> (Alloc len # evs @ destroy_loop i 0 @ [Free], Inl e))"

text \<open>The number of destructor runs on the element at index \<open>k\<close>.\<close>

definition destructions :: "nat \<Rightarrow> mem_event list \<Rightarrow> nat" where
  "destructions k evs = count_list evs (Destruct k)"


section \<open>The partitioner driver (parallel\_for.h)\<close>

text \<open>
  \<^verbatim>\<open>internal_parallel_for(sched, partitioner, func)\<close>. The partitioner type is a
  template parameter whose class is not among the sources, so its two operations are
  parameters here: \<open>split p\<close> is \<^verbatim>\<open>partitioner.split()\<close>, which returns the
  sub-partition it cuts off together with the partitioner it leaves behind (the call
  changes the partitioner in place), and \<open>elems p\<close> are the elements between
  \<^verbatim>\<open>p.begin()\<close> and \<^verbatim>\<open>p.end()\<close>, in order.

  The callable is applied for its effect, so a run is described by the sequence of
  elements \<^verbatim>\<open>func\<close> was applied to. The spawned half and the inline half run in
  parallel and the function returns only after \<^verbatim>\<open>t.get()\<close> has joined the spawned
  task: the possible sequences at return are the interleavings (\<open>shuffles\<close>) of a
  complete sequence of the spawned half with a complete sequence of the inline half.
  The result is the set of possible sequences; \<open>None\<close> is a recursion that never
  returns. \<^verbatim>\<open>func\<close> is taken to return normally.
\<close>

partial_function (option) internal_parallel_for ::
  "('p \<Rightarrow> 'p \<times> 'p) \<Rightarrow> ('p \<Rightarrow> 'a list) \<Rightarrow> 'p \<Rightarrow> 'a list set option" where
  "internal_parallel_for split elems partitioner =
     (case split partitioner of (subpart, partitioner') \<Rightarrow>
        if elems subpart = [] then Some {elems partitioner'}
        else Option.bind (internal_parallel_for split elems subpart) (\<lambda>spawned.
             Option.bind (internal_parallel_for split elems partitioner') (\<lambda>inline.
             Some (\<Union>a\<in>spawned. \<Union>b\<in>inline. shuffles a b))))"

text \<open>
  What the driver needs of a partitioner. A split loses and invents no element: the
  elements of the two parts are, as a multiset, those of the partitioner before the call.
  And a split that cuts off a non-empty part makes both parts smaller in some measure,
  so that splitting comes to an end.
\<close>

definition keeps_elements :: "('p \<Rightarrow> 'p \<times> 'p) \<Rightarrow> ('p \<Rightarrow> 'a list) \<Rightarrow> bool" where
  "keeps_elements split elems =
     (\<forall>p. mset (elems (fst (split p))) + mset (elems (snd (split p))) = mset (elems p))"

definition shrinks :: "('p \<Rightarrow> 'p \<times> 'p) \<Rightarrow> ('p \<Rightarrow> 'a list) \<Rightarrow> ('p \<Rightarrow> nat) \<Rightarrow> bool" where
  "shrinks split elems m =
     (\<forall>p. elems (fst (split p)) \<noteq> [] \<longrightarrow> m (fst (split p)) < m p \<and> m (snd (split p)) < m p)"

text \<open>
  A partitioner to instantiate the parameters with: the index range from \<open>b\<close> up to
  \<open>e\<close> (exclusive), which hands out its upper half until a single element is left. It
  is an example of the kind of argument \<^verbatim>\<open>parallel_for\<close> receives, not a
  translation of a class of the library.
\<close>

definition example_split :: "nat \<times> nat \<Rightarrow> (nat \<times> nat) \<times> (nat \<times> nat)" where
  "example_split r =
     (case r of (b, e) \<Rightarrow>
        if e - b \<le> 1 then ((e, e), (b, e))
        else (let mid = b + (e - b + 1) div 2 in ((mid, e), (b, mid))))"

definition example_elems :: "nat \<times> nat \<Rightarrow> nat list" where
  "example_elems r = (case r of (b, e) \<Rightarrow> [b..<e])"

definition example_size :: "nat \<times> nat \<Rightarrow> nat" where
  "example_size r = (case r of (b, e) \<Rightarrow> e - b)"


section \<open>The task node (task\_base.h)\<close>

subsection \<open>State, storage and continuation list\<close>

text \<open>\<^verbatim>\<open>enum class task_state\<close> and \<^verbatim>\<open>is_finished\<close>.\<close>

datatype task_state = pending | locked | unwrapped | completed | canceled

definition is_finished :: "task_state \<Rightarrow> bool" where
  "is_finished s = (s = completed \<or> s = canceled)"

text \<open>
  An entry of a continuation list is a pointer to a continuation task. Two kinds are
  told apart: \<open>Task_cont k\<close> is a continuation task of the user, number \<open>k\<close>, which its
  own scheduler will run; \<open>Unwrap_cont\<close> is the continuation that
  \<^verbatim>\<open>unwrapped_finish\<close> attaches to a child task, whose callable is an
  \<^verbatim>\<open>unwrapped_func\<close> holding the parent and whose scheduler is the inline
  scheduler.
\<close>

datatype cont = Task_cont nat | Unwrap_cont

text \<open>
  Modelled from the spec: \<^verbatim>\<open>continuation_vector\<close>, whose header is not among the
  sources. The specification describes it as a lock-free list of pending continuation
  tasks that is appended to until it is sealed: the entries and the seal.
\<close>

record continuation_vector =
  entries :: "cont list"
  sealed :: bool

text \<open>
  Modelled from the spec: \<^verbatim>\<open>continuation_vector::try_add(cont)\<close>, which returns
  true if the continuation was appended and false iff the list has been sealed. The new
  list is returned, or \<open>None\<close> for false.
\<close>

definition try_add :: "cont \<Rightarrow> continuation_vector \<Rightarrow> continuation_vector option" where
  "try_add c cv = (if sealed cv then None else Some (cv\<lparr>entries := entries cv @ [c]\<rparr>))"

text \<open>
  Modelled from the spec: \<^verbatim>\<open>continuation_vector::flush_and_lock(fn)\<close>, which seals
  the list and invokes \<^verbatim>\<open>fn\<close> on each registered continuation, exactly once per
  entry, in unspecified order. The entries are returned together with the sealed, emptied
  list, and the caller applies \<^verbatim>\<open>fn\<close> to the entries, in the order of
  registration (one of the orders allowed).
\<close>

definition flush_and_lock :: "continuation_vector \<Rightarrow> cont list \<times> continuation_vector" where
  "flush_and_lock cv = (entries cv, \<lparr>entries = [], sealed = True\<rparr>)"

text \<open>
  The anonymous union of \<^verbatim>\<open>task_result_holder\<close>: the member that is alive. The
  scheduler pointer is a number. A result that was moved out of is still a constructed
  object, of unspecified value.
\<close>

datatype ('v, 'e) storage =
    Holds_sched nat
  | Holds_result 'v
  | Holds_moved_result
  | Holds_except 'e

definition holds_result :: "('v, 'e) storage \<Rightarrow> bool" where
  "holds_result st = (case st of Holds_result v \<Rightarrow> True | Holds_moved_result \<Rightarrow> True | _ \<Rightarrow> False)"

definition holds_except :: "('v, 'e) storage \<Rightarrow> bool" where
  "holds_except st = (case st of Holds_except e \<Rightarrow> True | _ \<Rightarrow> False)"

text \<open>
  What a node does, in the order it does it: the call of the user's callable, the
  placement-new of a result or of an exception into the union, the run of the destructor
  of the function object, a store to the state cell, the sealing of the continuation list,
  the hand-over of a continuation to its scheduler, and the three steps of the
  destruction of the node.
\<close>

datatype ('v, 'e) event =
    Invoke_func
  | Set_result 'v
  | Set_exception 'e
  | Destroy_func
  | Store_state task_state
  | Flush_and_lock
  | Schedule_cont cont
  | Destroy_exception
  | Destroy_result
  | Free_node

text \<open>
  A \<^verbatim>\<open>task_func\<close> node: the state cell and the continuation list of
  \<^verbatim>\<open>task_base\<close>, the union of \<^verbatim>\<open>task_result_holder\<close>, and whether the
  \<^verbatim>\<open>func_holder\<close> holds a constructed function object. The field \<open>trace\<close> is
  not a field of the class: it logs each event with the state and the storage right after
  it, so that the order of the steps and the node at every point between two steps can be
  stated. The reference count and the dispatch table are left out: the functions below
  are the entries of the table of \<^verbatim>\<open>task_func\<close>.
\<close>

record ('v, 'e) task_node =
  state :: task_state
  continuations :: continuation_vector
  storage :: "('v, 'e) storage"
  func_live :: bool
  trace :: "(('v, 'e) event \<times> task_state \<times> ('v, 'e) storage) list"

definition record_event :: "('v, 'e) event \<Rightarrow> ('v, 'e) task_node \<Rightarrow> ('v, 'e) task_node" where
  "record_event ev n = n\<lparr>trace := trace n @ [(ev, state n, storage n)]\<rparr>"

definition events :: "('v, 'e) task_node \<Rightarrow> ('v, 'e) event list" where
  "events n = map fst (trace n)"

text \<open>
  The constructors: \<^verbatim>\<open>task_base()\<close> sets the state to pending and
  \<^verbatim>\<open>task_func(args...)\<close> constructs the function object; the creator of the task
  stores the scheduler pointer in the union.
\<close>

definition new_task_func :: "nat \<Rightarrow> ('v, 'e) task_node" where
  "new_task_func sched =
     \<lparr>state = pending, continuations = \<lparr>entries = [], sealed = False\<rparr>,
      storage = Holds_sched sched, func_live = True, trace = []\<rparr>"

subsection \<open>The member functions of task\_base, task\_result\_holder and task\_result\<close>

text \<open>A store to the state cell.\<close>

definition store_state :: "task_state \<Rightarrow> ('v, 'e) task_node \<Rightarrow> ('v, 'e) task_node" where
  "store_state s n = record_event (Store_state s) (n\<lparr>state := s\<rparr>)"

text \<open>\<^verbatim>\<open>ready()\<close>.\<close>

definition ready :: "('v, 'e) task_node \<Rightarrow> bool" where
  "ready n = is_finished (state n)"

text \<open>
  \<^verbatim>\<open>run_continuation(sched, cont)\<close>:
  \<^verbatim>\<open>detail::schedule_task(sched, std::move(cont))\<close> hands the continuation to its
  scheduler. The schedulers are outside the sources; the hand-over is logged on the node
  whose member is called. (Should the scheduler throw, the handler cancels the
  continuation, which is another node.)
\<close>

definition run_continuation :: "cont \<Rightarrow> ('v, 'e) task_node \<Rightarrow> ('v, 'e) task_node" where
  "run_continuation c n = record_event (Schedule_cont c) n"

text \<open>
  \<^verbatim>\<open>run_continuations()\<close>: \<^verbatim>\<open>flush_and_lock\<close> with the callback that looks up
  the \<^verbatim>\<open>schedule\<close> entry of the continuation's table, which
  (\<^verbatim>\<open>task_func::schedule\<close>) reads the continuation's scheduler and calls
  \<^verbatim>\<open>parent->run_continuation\<close>.
\<close>

definition run_continuations :: "('v, 'e) task_node \<Rightarrow> ('v, 'e) task_node" where
  "run_continuations n =
     (case flush_and_lock (continuations n) of
        (cs, cv) \<Rightarrow> fold run_continuation cs (record_event Flush_and_lock (n\<lparr>continuations := cv\<rparr>)))"

text \<open>
  \<^verbatim>\<open>add_continuation(sched, cont)\<close>, run by one thread with no other thread
  in between.
\<close>

definition add_continuation :: "cont \<Rightarrow> ('v, 'e) task_node \<Rightarrow> ('v, 'e) task_node" where
  "add_continuation c n =
     (if \<not> is_finished (state n)
      then (case try_add c (continuations n) of
              Some cv \<Rightarrow> n\<lparr>continuations := cv\<rparr>
            | None \<Rightarrow> run_continuation c n)
      else run_continuation c n)"

text \<open>\<^verbatim>\<open>finish()\<close>.\<close>

definition finish :: "('v, 'e) task_node \<Rightarrow> ('v, 'e) task_node" where
  "finish n = run_continuations (store_state completed n)"

text \<open>
  \<^verbatim>\<open>wait()\<close>: returns the state if it is final; otherwise it blocks in
  \<^verbatim>\<open>wait_for_task\<close> until another thread finishes the task, which a call on its
  own never sees: \<open>None\<close>.
\<close>

definition wait :: "('v, 'e) task_node \<Rightarrow> task_state option" where
  "wait n = (if is_finished (state n) then Some (state n) else None)"

text \<open>
  \<^verbatim>\<open>set_result(t)\<close>: placement-new of the result from \<^verbatim>\<open>t\<close>. The copy or
  move constructor of the result type may throw: \<open>move_throws v\<close> is \<open>Some e\<close> when
  constructing from \<open>v\<close> throws \<open>e\<close>, and then nothing was constructed.
\<close>

definition store_result :: "'v \<Rightarrow> ('v, 'e) task_node \<Rightarrow> ('v, 'e) task_node" where
  "store_result v n = record_event (Set_result v) (n\<lparr>storage := Holds_result v\<rparr>)"

definition set_result ::
  "('v \<Rightarrow> 'e option) \<Rightarrow> 'v \<Rightarrow> ('v, 'e) task_node \<Rightarrow> 'e + ('v, 'e) task_node" where
  "set_result move_throws v n =
     (case move_throws v of Some e \<Rightarrow> Inl e | None \<Rightarrow> Inr (store_result v n))"

text \<open>
  The two overloads of \<^verbatim>\<open>get_result\<close>, chosen by the type of the handle. Both
  reinterpret the union as a result. That is undefined when the union holds none, and
  gives an unspecified value when the result was moved out of: \<open>None\<close> in both
  cases. For \<^verbatim>\<open>task<T>\<close> the result is returned as an rvalue reference from
  which the caller move-constructs, which leaves a moved-from result in the node; for
  \<^verbatim>\<open>shared_task<T>\<close> it is a const reference and the node is as before.
\<close>

datatype handle_kind = Task_handle | Shared_task_handle

definition get_result ::
  "handle_kind \<Rightarrow> ('v, 'e) task_node \<Rightarrow> ('v \<times> ('v, 'e) task_node) option" where
  "get_result h n =
     (case storage n of
        Holds_result v \<Rightarrow>
          Some (v, case h of Task_handle \<Rightarrow> n\<lparr>storage := Holds_moved_result\<rparr>
                           | Shared_task_handle \<Rightarrow> n)
      | _ \<Rightarrow> None)"

text \<open>\<^verbatim>\<open>set_exception\<close>, \<^verbatim>\<open>get_exception\<close> and \<^verbatim>\<open>cancel_base\<close>.\<close>

definition set_exception :: "'e \<Rightarrow> ('v, 'e) task_node \<Rightarrow> ('v, 'e) task_node" where
  "set_exception e n = record_event (Set_exception e) (n\<lparr>storage := Holds_except e\<rparr>)"

definition get_exception :: "('v, 'e) task_node \<Rightarrow> 'e option" where
  "get_exception n = (case storage n of Holds_except e \<Rightarrow> Some e | _ \<Rightarrow> None)"

definition cancel_base :: "'e \<Rightarrow> ('v, 'e) task_node \<Rightarrow> ('v, 'e) task_node" where
  "cancel_base e n = run_continuations (store_state canceled (set_exception e n))"

text \<open>
  \<^verbatim>\<open>wait_and_throw()\<close>: what a call can come to is a value, a rethrown exception,
  a wait that never ends, or a read of a union member that is not alive.
\<close>

datatype ('a, 'e) reply = Value 'a | Rethrown 'e | Blocked | Undefined_read

definition wait_and_throw :: "('v, 'e) task_node \<Rightarrow> (unit, 'e) reply" where
  "wait_and_throw n =
     (case wait n of
        None \<Rightarrow> Blocked
      | Some s \<Rightarrow>
          if s = canceled
          then (case get_exception n of Some e \<Rightarrow> Rethrown e | None \<Rightarrow> Undefined_read)
          else Value ())"

text \<open>
  Modelled from the spec: \<^verbatim>\<open>get\<close> of a task handle, whose header is not among the
  sources. The specification has it as the wait plus rethrow-or-return, where an
  exclusive handle moves its result out and a shared handle returns a const reference:
  \<^verbatim>\<open>wait_and_throw\<close> followed by the \<^verbatim>\<open>get_result\<close> of the handle's kind.
\<close>

definition get :: "handle_kind \<Rightarrow> ('v, 'e) task_node \<Rightarrow> ('v, 'e) reply \<times> ('v, 'e) task_node" where
  "get h n =
     (case wait_and_throw n of
        Value u \<Rightarrow> (case get_result h n of Some (v, n') \<Rightarrow> (Value v, n') | None \<Rightarrow> (Undefined_read, n))
      | Rethrown e \<Rightarrow> (Rethrown e, n)
      | Blocked \<Rightarrow> (Blocked, n)
      | Undefined_read \<Rightarrow> (Undefined_read, n))"

text \<open>The replies of \<open>k\<close> calls of \<open>get\<close> in a row on the same node.\<close>

fun get_repeatedly :: "nat \<Rightarrow> handle_kind \<Rightarrow> ('v, 'e) task_node \<Rightarrow> ('v, 'e) reply list" where
  "get_repeatedly 0 h n = []"
| "get_repeatedly (Suc k) h n = (case get h n of (r, n') \<Rightarrow> r # get_repeatedly k h n')"

subsection \<open>task\_func: the function holder and the entries of the dispatch table\<close>

text \<open>\<^verbatim>\<open>destroy_func()\<close> runs the destructor of the function object.\<close>

definition destroy_func :: "('v, 'e) task_node \<Rightarrow> ('v, 'e) task_node" where
  "destroy_func n = record_event Destroy_func (n\<lparr>func_live := False\<rparr>)"

text \<open>\<^verbatim>\<open>task_func::cancel(t, except)\<close>.\<close>

definition cancel :: "'e \<Rightarrow> ('v, 'e) task_node \<Rightarrow> ('v, 'e) task_node" where
  "cancel e t = cancel_base e (destroy_func t)"

text \<open>
  An execution function (\<^verbatim>\<open>root_exec_func\<close>, \<^verbatim>\<open>continuation_exec_func\<close>)
  returns, or an exception leaves it, or it reads a union member that is not alive. In
  each of the first two cases the node is as the steps before left it.
\<close>

datatype ('n, 'e) exec_outcome = Returned 'n | Threw 'e 'n | Undefined_behaviour

text \<open>
  \<^verbatim>\<open>task_func::run(t)\<close>: the call of the stored execution function in a
  \<^verbatim>\<open>try\<close> block whose handler calls \<^verbatim>\<open>cancel\<close>.
\<close>

definition run ::
  "(('v, 'e) task_node \<Rightarrow> (('v, 'e) task_node, 'e) exec_outcome) \<Rightarrow> ('v, 'e) task_node
     \<Rightarrow> ('v, 'e) task_node option" where
  "run exec t =
     (case exec t of
        Returned t' \<Rightarrow> Some t'
      | Threw e t' \<Rightarrow> Some (cancel e t')
      | Undefined_behaviour \<Rightarrow> None)"

text \<open>
  The destructors, in the order \<^verbatim>\<open>delete\<close> runs them: \<^verbatim>\<open>~task_func\<close>
  destroys the function object if the state is still pending; \<^verbatim>\<open>~task_result\<close>
  destroys the exception if the state is canceled; \<^verbatim>\<open>~task_result_holder\<close>
  destroys the result if the state is completed; then the memory is released.
\<close>

definition dtor_task_func :: "('v, 'e) task_node \<Rightarrow> ('v, 'e) task_node" where
  "dtor_task_func n = (if state n = pending then destroy_func n else n)"

definition dtor_task_result :: "('v, 'e) task_node \<Rightarrow> ('v, 'e) task_node" where
  "dtor_task_result n = (if state n = canceled then record_event Destroy_exception n else n)"

definition dtor_task_result_holder :: "('v, 'e) task_node \<Rightarrow> ('v, 'e) task_node" where
  "dtor_task_result_holder n = (if state n = completed then record_event Destroy_result n else n)"

text \<open>\<^verbatim>\<open>task_func::destroy(t)\<close>: \<^verbatim>\<open>delete\<close> of the node.\<close>

definition destroy :: "('v, 'e) task_node \<Rightarrow> ('v, 'e) task_node" where
  "destroy t = record_event Free_node (dtor_task_result_holder (dtor_task_result (dtor_task_func t)))"

subsection \<open>Execution functions\<close>

text \<open>
  \<^verbatim>\<open>root_exec_func<Sched, Result, Func, false>::operator()\<close>. The nullary callable
  of the user is given by what a call of it comes to: \<open>Inl e\<close> when it throws \<open>e\<close>,
  \<open>Inr v\<close> when it returns \<open>v\<close> (the unit value for a callable returning nothing).
\<close>

definition root_exec_func ::
  "('v \<Rightarrow> 'e option) \<Rightarrow> 'e + 'v \<Rightarrow> ('v, 'e) task_node \<Rightarrow> (('v, 'e) task_node, 'e) exec_outcome" where
  "root_exec_func move_throws func t =
     (let t1 = record_event Invoke_func t in
      case func of
        Inl e \<Rightarrow> Threw e t1
      | Inr v \<Rightarrow>
          (case set_result move_throws v t1 of
             Inl e \<Rightarrow> Threw e t1
           | Inr t2 \<Rightarrow> Returned (finish (destroy_func t2))))"

text \<open>
  \<^verbatim>\<open>continuation_exec_func<Sched, Parent, Result, Func, std::true_type, false>::operator()\<close>,
  the value continuation without unwrapping. The callable takes the parent's result. The
  parent is read through its handle, of kind \<open>h\<close>; what the read leaves in the parent
  is not part of the outcome.
\<close>

definition continuation_exec_func_value ::
  "handle_kind \<Rightarrow> ('v \<Rightarrow> 'e option) \<Rightarrow> ('a \<Rightarrow> 'e + 'v) \<Rightarrow> ('a, 'e) task_node \<Rightarrow> ('v, 'e) task_node
     \<Rightarrow> (('v, 'e) task_node, 'e) exec_outcome" where
  "continuation_exec_func_value h move_throws func parent t =
     (if state parent = canceled
      then (case get_exception parent of
              None \<Rightarrow> Undefined_behaviour
            | Some e \<Rightarrow> Returned (cancel e t))
      else (case get_result h parent of
              None \<Rightarrow> Undefined_behaviour
            | Some (a, parent') \<Rightarrow>
                (let t1 = record_event Invoke_func t in
                 case func a of
                   Inl e \<Rightarrow> Threw e t1
                 | Inr v \<Rightarrow>
                     (case set_result move_throws v t1 of
                        Inl e \<Rightarrow> Threw e t1
                      | Inr t2 \<Rightarrow> Returned (finish (destroy_func t2))))))"

text \<open>
  The steps of the \<^verbatim>\<open>cancel\<close> hook in the order in which the specification
  lists them (store the exception, destroy the function object, transition to canceled,
  drain the continuations). This is the specification's wording, not the source; it is
  what \<open>cancel\<close> is compared with.
\<close>

definition cancel_as_specified :: "'e \<Rightarrow> ('v, 'e) task_node \<Rightarrow> ('v, 'e) task_node" where
  "cancel_as_specified e t =
     run_continuations (store_state canceled (destroy_func (set_exception e t)))"

subsection \<open>Unwrapping: a task and the child task its callable returns\<close>

text \<open>
  Unwrapping involves two nodes: the task whose callable returns a task (the parent) and
  the returned task (the child). Both have the same result type.
\<close>

record ('v, 'e) unwrap_sys =
  parent_task :: "('v, 'e) task_node"
  child_task :: "('v, 'e) task_node"

text \<open>
  \<^verbatim>\<open>unwrapped_func<Result, Child>::operator()(Child child_task)\<close>, the callable of
  the continuation that \<^verbatim>\<open>unwrapped_finish\<close> attaches to the child. \<open>h\<close> is the
  kind of the handle \<^verbatim>\<open>Child\<close>. The \<^verbatim>\<open>try\<close> block covers the construction
  of the parent's result from the child's, which may throw.
\<close>

definition unwrapped_func ::
  "handle_kind \<Rightarrow> ('v \<Rightarrow> 'e option) \<Rightarrow> ('v, 'e) unwrap_sys \<Rightarrow> ('v, 'e) unwrap_sys option" where
  "unwrapped_func h move_throws sys =
     (if state (child_task sys) = completed
      then (case get_result h (child_task sys) of
              None \<Rightarrow> None
            | Some (v, child') \<Rightarrow>
                (case set_result move_throws v (parent_task sys) of
                   Inl e \<Rightarrow> Some (sys\<lparr>parent_task := cancel_base e (parent_task sys)\<rparr>)
                 | Inr p \<Rightarrow> Some \<lparr>parent_task = finish p, child_task = child'\<rparr>))
      else (case get_exception (child_task sys) of
              None \<Rightarrow> None
            | Some e \<Rightarrow> Some (sys\<lparr>parent_task := cancel_base e (parent_task sys)\<rparr>)))"

text \<open>
  \<^verbatim>\<open>run_continuation\<close> called on the child. The hand-over is logged on the child as
  before. The scheduler of the unwrapping continuation is the inline scheduler, which runs
  the continuation on the spot: its callable \<^verbatim>\<open>unwrapped_func\<close> runs before
  \<^verbatim>\<open>run_continuation\<close> returns. (The continuation's own node is not modelled.)
\<close>

definition sys_run_continuation ::
  "handle_kind \<Rightarrow> ('v \<Rightarrow> 'e option) \<Rightarrow> cont \<Rightarrow> ('v, 'e) unwrap_sys \<Rightarrow> ('v, 'e) unwrap_sys option" where
  "sys_run_continuation h move_throws c sys =
     (let sys1 = sys\<lparr>child_task := run_continuation c (child_task sys)\<rparr> in
      case c of
        Unwrap_cont \<Rightarrow> unwrapped_func h move_throws sys1
      | Task_cont k \<Rightarrow> Some sys1)"

text \<open>\<^verbatim>\<open>add_continuation\<close> called on the child.\<close>

definition sys_add_continuation ::
  "handle_kind \<Rightarrow> ('v \<Rightarrow> 'e option) \<Rightarrow> cont \<Rightarrow> ('v, 'e) unwrap_sys \<Rightarrow> ('v, 'e) unwrap_sys option" where
  "sys_add_continuation h move_throws c sys =
     (if \<not> is_finished (state (child_task sys))
      then (case try_add c (continuations (child_task sys)) of
              Some cv \<Rightarrow> Some (sys\<lparr>child_task := (child_task sys)\<lparr>continuations := cv\<rparr>\<rparr>)
            | None \<Rightarrow> sys_run_continuation h move_throws c sys)
      else sys_run_continuation h move_throws c sys)"

text \<open>
  Modelled from the spec: \<^verbatim>\<open>then(scheduler, callable)\<close> of a task handle, whose
  header is not among the sources, as called by \<^verbatim>\<open>unwrapped_finish\<close>:
  \<^verbatim>\<open>child_task.then(inline_scheduler(), unwrapped_func<Result, Child>(task_ptr(parent_base)))\<close>.
  It creates the continuation task and registers it on the child with
  \<^verbatim>\<open>add_continuation\<close>. Creating the task may throw (\<open>then_throws\<close>), before
  anything is registered.
\<close>

definition then_inline ::
  "handle_kind \<Rightarrow> ('v \<Rightarrow> 'e option) \<Rightarrow> 'e option \<Rightarrow> ('v, 'e) unwrap_sys
     \<Rightarrow> (('v, 'e) unwrap_sys, 'e) exec_outcome" where
  "then_inline h move_throws then_throws sys =
     (case then_throws of
        Some e \<Rightarrow> Threw e sys
      | None \<Rightarrow>
          (case sys_add_continuation h move_throws Unwrap_cont sys of
             None \<Rightarrow> Undefined_behaviour
           | Some sys' \<Rightarrow> Returned sys'))"

text \<open>\<^verbatim>\<open>unwrapped_finish<Sched, Result, Func, Child>(parent_base, child_task)\<close>.\<close>

definition unwrapped_finish ::
  "handle_kind \<Rightarrow> ('v \<Rightarrow> 'e option) \<Rightarrow> 'e option \<Rightarrow> ('v, 'e) unwrap_sys
     \<Rightarrow> ('v, 'e) unwrap_sys option" where
  "unwrapped_finish h move_throws then_throws sys =
     (let sys1 = sys\<lparr>parent_task := destroy_func (store_state unwrapped (parent_task sys))\<rparr> in
      case then_inline h move_throws then_throws sys1 of
        Returned sys2 \<Rightarrow> Some sys2
      | Threw e sys2 \<Rightarrow> Some (sys2\<lparr>parent_task := cancel_base e (parent_task sys2)\<rparr>)
      | Undefined_behaviour \<Rightarrow> None)"

text \<open>
  \<^verbatim>\<open>root_exec_func<Sched, Result, Func, true>::operator()\<close>, the root task with
  unwrapping. The callable throws (\<open>func_throws = Some e\<close>) or returns the handle of
  the child of the system.
\<close>

definition root_exec_func_unwrap ::
  "handle_kind \<Rightarrow> ('v \<Rightarrow> 'e option) \<Rightarrow> 'e option \<Rightarrow> 'e option \<Rightarrow> ('v, 'e) unwrap_sys
     \<Rightarrow> (('v, 'e) unwrap_sys, 'e) exec_outcome" where
  "root_exec_func_unwrap h move_throws func_throws then_throws sys =
     (let sys1 = sys\<lparr>parent_task := record_event Invoke_func (parent_task sys)\<rparr> in
      case func_throws of
        Some e \<Rightarrow> Threw e sys1
      | None \<Rightarrow>
          (case unwrapped_finish h move_throws then_throws sys1 of
             None \<Rightarrow> Undefined_behaviour
           | Some sys2 \<Rightarrow> Returned sys2))"

text \<open>\<^verbatim>\<open>task_func::run\<close> of the parent, as \<open>run\<close> above.\<close>

definition sys_run ::
  "(('v, 'e) unwrap_sys \<Rightarrow> (('v, 'e) unwrap_sys, 'e) exec_outcome) \<Rightarrow> ('v, 'e) unwrap_sys
     \<Rightarrow> ('v, 'e) unwrap_sys option" where
  "sys_run exec sys =
     (case exec sys of
        Returned sys' \<Rightarrow> Some sys'
      | Threw e sys' \<Rightarrow> Some (sys'\<lparr>parent_task := cancel e (parent_task sys')\<rparr>)
      | Undefined_behaviour \<Rightarrow> None)"

text \<open>
  The terminal transition of the child: \<^verbatim>\<open>run_continuations\<close>, \<^verbatim>\<open>finish\<close>
  and \<^verbatim>\<open>cancel_base\<close> called on the child, where the callback applied to each entry
  ends in the \<open>sys_run_continuation\<close> above.
\<close>

fun run_each :: "('c \<Rightarrow> 's \<Rightarrow> 's option) \<Rightarrow> 'c list \<Rightarrow> 's \<Rightarrow> 's option" where
  "run_each f [] s = Some s"
| "run_each f (c # cs) s = (case f c s of None \<Rightarrow> None | Some s' \<Rightarrow> run_each f cs s')"

definition sys_run_continuations ::
  "handle_kind \<Rightarrow> ('v \<Rightarrow> 'e option) \<Rightarrow> ('v, 'e) unwrap_sys \<Rightarrow> ('v, 'e) unwrap_sys option" where
  "sys_run_continuations h move_throws sys =
     (case flush_and_lock (continuations (child_task sys)) of
        (cs, cv) \<Rightarrow>
          run_each (sys_run_continuation h move_throws) cs
            (sys\<lparr>child_task := record_event Flush_and_lock ((child_task sys)\<lparr>continuations := cv\<rparr>)\<rparr>))"

definition sys_finish ::
  "handle_kind \<Rightarrow> ('v \<Rightarrow> 'e option) \<Rightarrow> ('v, 'e) unwrap_sys \<Rightarrow> ('v, 'e) unwrap_sys option" where
  "sys_finish h move_throws sys =
     sys_run_continuations h move_throws (sys\<lparr>child_task := store_state completed (child_task sys)\<rparr>)"

definition sys_cancel_base ::
  "handle_kind \<Rightarrow> ('v \<Rightarrow> 'e option) \<Rightarrow> 'e \<Rightarrow> ('v, 'e) unwrap_sys \<Rightarrow> ('v, 'e) unwrap_sys option" where
  "sys_cancel_base h move_throws e sys =
     sys_run_continuations h move_throws
       (sys\<lparr>child_task := store_state canceled (set_exception e (child_task sys))\<rparr>)"

text \<open>
  The child comes to its end with outcome \<open>out\<close>: its result \<open>v\<close> is constructed and
  \<^verbatim>\<open>finish\<close> is called (\<open>Inr v\<close>), or it is canceled with \<open>e\<close> (\<open>Inl e\<close>).
\<close>

definition child_terminates ::
  "handle_kind \<Rightarrow> ('v \<Rightarrow> 'e option) \<Rightarrow> 'e + 'v \<Rightarrow> ('v, 'e) unwrap_sys \<Rightarrow> ('v, 'e) unwrap_sys option" where
  "child_terminates h move_throws out sys =
     (case out of
        Inr v \<Rightarrow> sys_finish h move_throws (sys\<lparr>child_task := store_result v (child_task sys)\<rparr>)
      | Inl e \<Rightarrow> sys_cancel_base h move_throws e sys)"

text \<open>
  The terminal outcome of a node: the value it completed with or the exception it was
  canceled with; \<open>None\<close> for a node that is not finished (or holds no such payload).
\<close>

fun outcome_of :: "task_state \<Rightarrow> ('v, 'e) storage \<Rightarrow> ('e + 'v) option" where
  "outcome_of completed (Holds_result v) = Some (Inr v)"
| "outcome_of canceled (Holds_except e) = Some (Inl e)"
| "outcome_of s st = None"

definition terminal_outcome :: "('v, 'e) task_node \<Rightarrow> ('e + 'v) option" where
  "terminal_outcome n = outcome_of (state n) (storage n)"

text \<open>
  What forwarding makes of the child's outcome: the same, except that a result whose
  construction in the parent throws becomes that exception.
\<close>

definition forwarded :: "('v \<Rightarrow> 'e option) \<Rightarrow> 'e + 'v \<Rightarrow> 'e + 'v" where
  "forwarded move_throws out =
     (case out of
        Inl e \<Rightarrow> Inl e
      | Inr v \<Rightarrow> (case move_throws v of Some e \<Rightarrow> Inl e | None \<Rightarrow> Inr v))"

text \<open>
  The steps by which \<^verbatim>\<open>unwrapped_func\<close> gives a node the outcome \<open>out\<close>: the
  result is constructed and \<^verbatim>\<open>finish\<close> is called, or \<^verbatim>\<open>cancel_base\<close> is
  called with the exception.
\<close>

definition deliver :: "'e + 'v \<Rightarrow> ('v, 'e) task_node \<Rightarrow> ('v, 'e) task_node" where
  "deliver out p = (case out of Inl e \<Rightarrow> cancel_base e p | Inr v \<Rightarrow> finish (store_result v p))"

subsection \<open>The life of a node\<close>

text \<open>
  What can happen to a \<^verbatim>\<open>task_func\<close> node between its construction and its
  destruction, for the task shapes above:
  \<^item> it is dropped without having run;
  \<^item> its \<^verbatim>\<open>cancel\<close> hook is called with an exception before it ran (by
    \<^verbatim>\<open>run_continuation\<close>, when handing it to its scheduler failed);
  \<^item> it is a root task and runs, its callable throwing or returning;
  \<^item> it is a value continuation of a parent and runs;
  \<^item> it is a root task with unwrapping and runs: its callable throws
    (\<open>Some e\<close> first) or returns the handle of a child; creating the forwarding
    continuation throws (\<open>Some e\<close> second) or not; and, where the node then waits for
    the child, the child comes to its end with an outcome or never does (\<open>None\<close>).
\<close>

datatype ('a, 'v, 'e) lifetime =
    Never_run
  | Cancel_hook 'e
  | Run_root "'e + 'v"
  | Run_value_cont handle_kind "('a, 'e) task_node" "'a \<Rightarrow> 'e + 'v"
  | Run_root_unwrap handle_kind "'e option" "'e option" "('v, 'e) task_node" "('e + 'v) option"

fun live ::
  "('v \<Rightarrow> 'e option) \<Rightarrow> ('a, 'v, 'e) lifetime \<Rightarrow> ('v, 'e) task_node \<Rightarrow> ('v, 'e) task_node option" where
  "live mv Never_run t = Some t"
| "live mv (Cancel_hook e) t = Some (cancel e t)"
| "live mv (Run_root func) t = run (root_exec_func mv func) t"
| "live mv (Run_value_cont h p func) t = run (continuation_exec_func_value h mv func p) t"
| "live mv (Run_root_unwrap h func_throws then_throws c later) t =
     (case sys_run (root_exec_func_unwrap h mv func_throws then_throws)
             \<lparr>parent_task = t, child_task = c\<rparr> of
        None \<Rightarrow> None
      | Some sys \<Rightarrow>
          (if state (parent_task sys) = unwrapped
           then (case later of
                   None \<Rightarrow> Some (parent_task sys)
                 | Some out \<Rightarrow> map_option parent_task (child_terminates h mv out sys))
           else Some (parent_task sys)))"

text \<open>
  The child that the callable of an unwrapping task returns has no forwarding continuation
  of this parent in its list yet.
\<close>

fun fresh_child :: "('a, 'v, 'e) lifetime \<Rightarrow> bool" where
  "fresh_child (Run_root_unwrap h func_throws then_throws c later)
     = (Unwrap_cont \<notin> set (entries (continuations c)))"
| "fresh_child l = True"

text \<open>
  Two readings of the invariants I1 and I2 on the union. The strong one: the result is
  alive iff the state is completed, and the exception is alive iff the state is canceled.
  The weak one, one direction only: a completed state has a result alive, a canceled
  state an exception.
\<close>

definition slots_match_state :: "task_state \<Rightarrow> ('v, 'e) storage \<Rightarrow> bool" where
  "slots_match_state s st =
     (holds_result st = (s = completed) \<and> holds_except st = (s = canceled))"

definition payload_valid :: "task_state \<Rightarrow> ('v, 'e) storage \<Rightarrow> bool" where
  "payload_valid s st =
     ((s = completed \<longrightarrow> holds_result st) \<and> (s = canceled \<longrightarrow> holds_except st))"

text \<open>The weak reading at every point of the trace of a node.\<close>

definition always_valid :: "('v, 'e) task_node \<Rightarrow> bool" where
  "always_valid n = list_all (\<lambda>(ev, s, st). payload_valid s st) (trace n)"

text \<open>
  A node as its constructor and its creator leave it: pending, the function object
  constructed, the scheduler pointer in the union, nothing done yet. Continuations may
  have been registered.
\<close>

definition fresh_task :: "('v, 'e) task_node \<Rightarrow> bool" where
  "fresh_task t =
     (state t = pending \<and> func_live t \<and> trace t = []
      \<and> (case storage t of Holds_sched s \<Rightarrow> True | _ \<Rightarrow> False)
      \<and> \<not> sealed (continuations t))"


section \<open>Registration racing with the terminal transition\<close>

text \<open>
  One thread brings a task to its end while other threads register continuations on it
  with \<^verbatim>\<open>add_continuation\<close>. Each thread runs its function one step at a time, and
  the steps of the threads interleave in any order. A step is one access to the shared
  node, together with the thread-local computation around it: a load or a store of the
  state cell, one call of \<^verbatim>\<open>try_add\<close>, the sealing of the list by
  \<^verbatim>\<open>flush_and_lock\<close>, the call of its callback on one entry, one call of
  \<^verbatim>\<open>run_continuation\<close>. The operations of the continuation list are atomic, as
  the specification has them (a lock-free structure with the two operations), and so are
  the accesses to the state cell (\<^verbatim>\<open>std::atomic\<close>). The steps take effect in the
  order of the interleaving; the weaker orders that the relaxed load and the fences permit
  are not modelled.

  Where a registrant stands in \<^verbatim>\<open>add_continuation\<close>: before the load of the
  state; after it, holding the loaded value; on the way to the direct run, after
  \<^verbatim>\<open>try_add\<close> failed or was skipped; returned after \<^verbatim>\<open>try_add\<close> succeeded;
  returned after \<^verbatim>\<open>run_continuation\<close>.
\<close>

datatype reg_pc = Reg_load | Reg_try task_state | Reg_fallback | Reg_added | Reg_ran_inline

text \<open>
  Where the finishing thread stands in \<^verbatim>\<open>finish\<close> (or in \<^verbatim>\<open>cancel_base\<close>
  after \<^verbatim>\<open>set_exception\<close>): before the store of the final state; before
  \<^verbatim>\<open>flush_and_lock\<close>; in \<^verbatim>\<open>flush_and_lock\<close> with the entries still to call
  the callback on; returned.
\<close>

datatype fin_pc = Fin_store | Fin_flush | Fin_each "cont list" | Fin_done

datatype thread = Finisher | Registrant nat

text \<open>
  The shared node, the registrants with the continuation each one registers, the
  finishing thread and the state it stores. \<open>flushed\<close> is not part of the program: it
  keeps the entries that \<^verbatim>\<open>flush_and_lock\<close> found in the list.
\<close>

record ('v, 'e) race =
  node :: "('v, 'e) task_node"
  registrants :: "(cont \<times> reg_pc) list"
  finisher :: fin_pc
  final_state :: task_state
  flushed :: "cont list"

definition reg_step :: "nat \<Rightarrow> ('v, 'e) race \<Rightarrow> ('v, 'e) race option" where
  "reg_step i r =
     (if i < length (registrants r)
      then (case registrants r ! i of
              (c, Reg_load) \<Rightarrow>
                Some (r\<lparr>registrants := (registrants r)[i := (c, Reg_try (state (node r)))]\<rparr>)
            | (c, Reg_try current_state) \<Rightarrow>
                (if \<not> is_finished current_state
                 then (case try_add c (continuations (node r)) of
                         Some cv \<Rightarrow>
                           Some (r\<lparr>node := (node r)\<lparr>continuations := cv\<rparr>,
                                   registrants := (registrants r)[i := (c, Reg_added)]\<rparr>)
                       | None \<Rightarrow> Some (r\<lparr>registrants := (registrants r)[i := (c, Reg_fallback)]\<rparr>))
                 else Some (r\<lparr>registrants := (registrants r)[i := (c, Reg_fallback)]\<rparr>))
            | (c, Reg_fallback) \<Rightarrow>
                Some (r\<lparr>node := run_continuation c (node r),
                        registrants := (registrants r)[i := (c, Reg_ran_inline)]\<rparr>)
            | (c, Reg_added) \<Rightarrow> None
            | (c, Reg_ran_inline) \<Rightarrow> None)
      else None)"

definition fin_step :: "('v, 'e) race \<Rightarrow> ('v, 'e) race option" where
  "fin_step r =
     (case finisher r of
        Fin_store \<Rightarrow>
          Some (r\<lparr>node := store_state (final_state r) (node r), finisher := Fin_flush\<rparr>)
      | Fin_flush \<Rightarrow>
          (case flush_and_lock (continuations (node r)) of
             (cs, cv) \<Rightarrow>
               Some (r\<lparr>node := record_event Flush_and_lock ((node r)\<lparr>continuations := cv\<rparr>),
                       finisher := Fin_each cs, flushed := cs\<rparr>))
      | Fin_each [] \<Rightarrow> Some (r\<lparr>finisher := Fin_done\<rparr>)
      | Fin_each (c # cs) \<Rightarrow>
          Some (r\<lparr>node := run_continuation c (node r), finisher := Fin_each cs\<rparr>)
      | Fin_done \<Rightarrow> None)"

text \<open>One step of a thread; \<open>None\<close> when the thread has returned (or does not exist).\<close>

fun step :: "thread \<Rightarrow> ('v, 'e) race \<Rightarrow> ('v, 'e) race option" where
  "step Finisher r = fin_step r"
| "step (Registrant i) r = reg_step i r"

text \<open>
  An interleaving is the list of the threads in the order of their steps; a thread that
  has returned is passed over.
\<close>

fun exec :: "thread list \<Rightarrow> ('v, 'e) race \<Rightarrow> ('v, 'e) race" where
  "exec [] r = r"
| "exec (th # ths) r = (case step th r of None \<Rightarrow> exec ths r | Some r' \<Rightarrow> exec ths r')"
















section \<open>Properties of the wait event\<close>

text \<open>
  C8. On an initialised wait event with mask \<open>m\<close>, \<open>try_wait e\<close> returns true iff
  \<open>m AND e\<close> is not zero, and the mask after the call is \<open>m\<close> with exactly the bits of
  \<open>e\<close> cleared: bit \<open>n\<close> is set afterwards iff it was set in \<open>m\<close> and is not in \<open>e\<close>, so
  a pending bit outside \<open>e\<close> stays set.
\<close>

theorem try_wait_clears_requested_bits:
  assumes "initialized w"
  shows "\<exists>w'. try_wait e w = Some (event_mask w AND e \<noteq> 0, w')
           \<and> event_mask w' = event_mask w AND NOT e
           \<and> (\<forall>n. bit (event_mask w') n = (bit (event_mask w) n \<and> \<not> bit e n))
           \<and> initialized w'"
  using assms by (auto simp add: try_wait_def Let_def bit_and_iff bit_not_iff dest: bit_imp_le_length)

theorem try_wait_clears_requested_bits_witness:
  "initialized (init new_task_wait_event\<lparr>event_mask := 3\<rparr>)
   \<and> (\<exists>w'. try_wait task_finished (init new_task_wait_event\<lparr>event_mask := 3\<rparr>) = Some (True, w')
          \<and> event_mask w' = 2)"
proof -
  let ?w = "init new_task_wait_event\<lparr>event_mask := 3\<rparr>"
  have h: "initialized ?w"
    by (simp add: init_def new_task_wait_event_def)
  from try_wait_clears_requested_bits [OF h, of task_finished]
  obtain w' where "try_wait task_finished ?w = Some (event_mask ?w AND task_finished \<noteq> 0, w')"
    and "event_mask w' = event_mask ?w AND NOT task_finished"
    by blast
  then have "try_wait task_finished ?w = Some (True, w') \<and> event_mask w' = 2"
    by (simp add: task_finished_def)
  with h show ?thesis by blast
qed


section \<open>Properties of the aligned array\<close>

text \<open>
  C10. The sized constructor at length 3, where the default constructor throws at index 2
  (elements 0 and 1 are constructed): the handler runs the destructor twice on the element
  at index 2, which was never constructed, and never on the elements 0 and 1; the block is
  freed and the exception is rethrown.
\<close>

theorem aligned_array_handler_destroys_wrong_element:
  "aligned_array (\<lambda>i. if i = 2 then Some (7::nat) else None) 3
     = ([Alloc 3, Construct 0, Construct 1, Destruct 2, Destruct 2, Free], Inl 7)
   \<and> destructions 0 (fst (aligned_array (\<lambda>i. if i = 2 then Some (7::nat) else None) 3)) = 0
   \<and> destructions 1 (fst (aligned_array (\<lambda>i. if i = 2 then Some (7::nat) else None) 3)) = 0
   \<and> destructions 2 (fst (aligned_array (\<lambda>i. if i = 2 then Some (7::nat) else None) 3)) = 2"
  by (simp add: aligned_array_def destructions_def numeral_3_eq_3 numeral_2_eq_2)


section \<open>Properties of the partitioner driver\<close>

lemma internal_parallel_for_total:
  assumes k: "keeps_elements split elems" and s: "shrinks split elems m"
  shows "\<exists>T. internal_parallel_for split elems p = Some T \<and> T \<noteq> {}
           \<and> (\<forall>t\<in>T. mset t = mset (elems p))"
proof (induction p rule: measure_induct_rule [where f = m])
  case (less p)
  obtain sub rest where sp: "split p = (sub, rest)" by (cases "split p")
  from k have "mset (elems (fst (split p))) + mset (elems (snd (split p))) = mset (elems p)"
    unfolding keeps_elements_def by (rule spec)
  with sp have keep: "mset (elems sub) + mset (elems rest) = mset (elems p)"
    by simp
  show ?case
  proof (cases "elems sub = []")
    case True
    have "internal_parallel_for split elems p = Some {elems rest}"
      using sp True by (subst internal_parallel_for.simps) simp
    moreover have "mset (elems rest) = mset (elems p)"
      using keep True by simp
    ultimately show ?thesis by simp
  next
    case False
    from s have "elems (fst (split p)) \<noteq> [] \<longrightarrow> m (fst (split p)) < m p \<and> m (snd (split p)) < m p"
      unfolding shrinks_def by (rule spec)
    with sp False have lt: "m sub < m p" "m rest < m p"
      by simp_all
    from less.IH [OF lt(1)] obtain A where
      A: "internal_parallel_for split elems sub = Some A" "A \<noteq> {}"
         "\<forall>t\<in>A. mset t = mset (elems sub)"
      by blast
    from less.IH [OF lt(2)] obtain B where
      B: "internal_parallel_for split elems rest = Some B" "B \<noteq> {}"
         "\<forall>t\<in>B. mset t = mset (elems rest)"
      by blast
    let ?T = "\<Union>a\<in>A. \<Union>b\<in>B. shuffles a b"
    have eq: "internal_parallel_for split elems p = Some ?T"
      using sp False A(1) B(1) by (subst internal_parallel_for.simps) simp
    have ne: "?T \<noteq> {}"
    proof -
      from A(2) B(2) obtain a b where ab: "a \<in> A" "b \<in> B" by blast
      have "splice a b \<in> shuffles a b" by simp
      with ab have "splice a b \<in> ?T" by blast
      then show ?thesis by blast
    qed
    have all: "\<forall>t\<in>?T. mset t = mset (elems p)"
    proof
      fix t assume "t \<in> ?T"
      then obtain a b where ab: "a \<in> A" "b \<in> B" "t \<in> shuffles a b" by blast
      then have "mset t = mset a + mset b" by (simp add: mset_shuffles)
      with ab A(3) B(3) keep show "mset t = mset (elems p)" by simp
    qed
    from eq ne all show ?thesis by blast
  qed
qed

lemma internal_parallel_for_inline:
  "elems (fst (split p)) = [] \<Longrightarrow>
     internal_parallel_for split elems p = Some {elems (snd (split p))}"
  by (subst internal_parallel_for.simps) (simp add: case_prod_beta)

lemma internal_parallel_for_halves:
  "elems (fst (split p)) \<noteq> [] \<Longrightarrow>
     internal_parallel_for split elems (fst (split p)) = Some A \<Longrightarrow>
     internal_parallel_for split elems (snd (split p)) = Some B \<Longrightarrow>
     internal_parallel_for split elems p = Some (\<Union>a\<in>A. \<Union>b\<in>B. shuffles a b)"
  by (subst internal_parallel_for.simps) (simp add: case_prod_beta)

lemma example_keeps: "keeps_elements example_split example_elems"
proof -
  have "mset [b + (e - b + 1) div 2..<e] + mset [b..<b + (e - b + 1) div 2] = mset [b..<e]"
    if "\<not> e - b \<le> 1" for b e :: nat
  proof -
    have "b \<le> b + (e - b + 1) div 2" "b + (e - b + 1) div 2 \<le> e" using that by auto
    then have "[b..<e] = [b..<b + (e - b + 1) div 2] @ [b + (e - b + 1) div 2..<e]"
      by (metis le_Suc_ex upt_add_eq_append)
    then show ?thesis by (metis mset_append add.commute)
  qed
  then show ?thesis
    by (auto simp: keeps_elements_def example_split_def example_elems_def Let_def split: prod.splits)
qed

lemma example_shrinks: "shrinks example_split example_elems example_size"
  by (auto simp: shrinks_def example_split_def example_elems_def example_size_def Let_def
      split: prod.splits)

lemma example_run:
  "internal_parallel_for example_split example_elems (0, 2) = Some {[1, 0], [0, 1]}"
  by (simp add: internal_parallel_for.simps example_split_def example_elems_def Let_def upt_rec
      insert_commute)

text \<open>
  C6. For the range of the indices below \<open>N\<close> and a partitioner whose split keeps the
  elements and comes to an end, \<open>internal_parallel_for\<close> returns, and in every possible
  order of the calls \<^verbatim>\<open>func\<close> is applied \<open>N\<close> times, once to each index below \<open>N\<close>
  and to nothing else. Where the split cuts off an empty part, the run is the one inline
  loop over the elements left; otherwise every run interleaves a complete run of each half.
\<close>

theorem internal_parallel_for_each_element_once:
  assumes "keeps_elements split elems" and "shrinks split elems m" and "elems p = [0..<N]"
  shows "\<exists>T. internal_parallel_for split elems p = Some T \<and> T \<noteq> {}
           \<and> (\<forall>t\<in>T. length t = N \<and> (\<forall>i. count_list t i = (if i < N then 1 else 0)))
           \<and> (elems (fst (split p)) = [] \<longrightarrow> T = {elems (snd (split p))})
           \<and> (elems (fst (split p)) \<noteq> [] \<longrightarrow>
                (\<exists>A B. internal_parallel_for split elems (fst (split p)) = Some A
                     \<and> internal_parallel_for split elems (snd (split p)) = Some B
                     \<and> T = (\<Union>a\<in>A. \<Union>b\<in>B. shuffles a b)))"
proof -
  from internal_parallel_for_total [OF assms(1,2)] obtain T where
    T: "internal_parallel_for split elems p = Some T" "T \<noteq> {}"
       "\<forall>t\<in>T. mset t = mset (elems p)"
    by blast
  have once: "length t = N \<and> (\<forall>i. count_list t i = (if i < N then 1 else 0))" if "t \<in> T" for t
  proof -
    from T(3) that assms(3) have m: "mset t = mset [0..<N]" by simp
    then have "size (mset t) = size (mset [0..<N])" by simp
    then have l: "length t = N" by simp
    have "count_list t i = count (mset t) i" for i by (simp add: count_mset)
    moreover have "count (mset t) i = (if i < N then 1 else 0)" for i
      unfolding m by simp
    ultimately show ?thesis using l by simp
  qed
  have inl: "elems (fst (split p)) = [] \<longrightarrow> T = {elems (snd (split p))}"
  proof
    assume "elems (fst (split p)) = []"
    then have "internal_parallel_for split elems p = Some {elems (snd (split p))}"
      by (rule internal_parallel_for_inline)
    with T(1) show "T = {elems (snd (split p))}" by simp
  qed
  have par: "elems (fst (split p)) \<noteq> [] \<longrightarrow>
                (\<exists>A B. internal_parallel_for split elems (fst (split p)) = Some A
                     \<and> internal_parallel_for split elems (snd (split p)) = Some B
                     \<and> T = (\<Union>a\<in>A. \<Union>b\<in>B. shuffles a b))"
  proof
    assume ne: "elems (fst (split p)) \<noteq> []"
    from internal_parallel_for_total [OF assms(1,2)] obtain A where
      A: "internal_parallel_for split elems (fst (split p)) = Some A" by blast
    from internal_parallel_for_total [OF assms(1,2)] obtain B where
      B: "internal_parallel_for split elems (snd (split p)) = Some B" by blast
    from ne A B have "internal_parallel_for split elems p = Some (\<Union>a\<in>A. \<Union>b\<in>B. shuffles a b)"
      by (rule internal_parallel_for_halves)
    with T(1) have "T = (\<Union>a\<in>A. \<Union>b\<in>B. shuffles a b)" by simp
    with A B show "\<exists>A B. internal_parallel_for split elems (fst (split p)) = Some A
                     \<and> internal_parallel_for split elems (snd (split p)) = Some B
                     \<and> T = (\<Union>a\<in>A. \<Union>b\<in>B. shuffles a b)" by blast
  qed
  have all: "\<forall>t\<in>T. length t = N \<and> (\<forall>i. count_list t i = (if i < N then 1 else 0))"
    using once by blast
  show ?thesis
    by (rule exI [of _ T]) (intro conjI T(1) T(2) all inl par)
qed

theorem internal_parallel_for_each_element_once_witness:
  "keeps_elements example_split example_elems
   \<and> shrinks example_split example_elems example_size
   \<and> example_elems (0, 2) = [0..<2]
   \<and> (\<exists>T. internal_parallel_for example_split example_elems (0, 2) = Some T
          \<and> T = {[1, 0], [0, 1]}
          \<and> (\<forall>t\<in>T. length t = 2 \<and> count_list t 0 = 1 \<and> count_list t 1 = 1 \<and> count_list t 2 = 0))"
proof -
  have e: "example_elems (0, 2) = [0..<2]" by (simp add: example_elems_def)
  from internal_parallel_for_each_element_once [OF example_keeps example_shrinks e]
  obtain T where T: "internal_parallel_for example_split example_elems (0, 2) = Some T"
    and c: "\<forall>t\<in>T. length t = 2 \<and> (\<forall>i. count_list t i = (if i < 2 then 1 else 0))"
    by blast
  from T example_run have "T = {[1, 0], [0, 1]}" by simp
  moreover from c have "\<forall>t\<in>T. length t = 2 \<and> count_list t 0 = 1 \<and> count_list t 1 = 1 \<and> count_list t 2 = 0"
    by simp
  ultimately show ?thesis using example_keeps example_shrinks e T by blast
qed

section \<open>Properties of the task node\<close>

subsection \<open>What each step does to a node\<close>

lemma record_event_fields [simp]:
  "state (record_event ev n) = state n"
  "storage (record_event ev n) = storage n"
  "continuations (record_event ev n) = continuations n"
  "func_live (record_event ev n) = func_live n"
  "trace (record_event ev n) = trace n @ [(ev, state n, storage n)]"
  by (simp_all add: record_event_def)

lemma events_record_event [simp]: "events (record_event ev n) = events n @ [ev]"
  by (simp add: events_def)

lemma events_update [simp]:
  "events (n\<lparr>state := s\<rparr>) = events n"
  "events (n\<lparr>storage := st\<rparr>) = events n"
  "events (n\<lparr>continuations := cv\<rparr>) = events n"
  "events (n\<lparr>func_live := b\<rparr>) = events n"
  by (simp_all add: events_def)

lemma new_task_func_fields [simp]:
  "state (new_task_func s) = pending"
  "storage (new_task_func s) = Holds_sched s"
  "continuations (new_task_func s) = \<lparr>entries = [], sealed = False\<rparr>"
  "func_live (new_task_func s) = True"
  "trace (new_task_func s) = []"
  "events (new_task_func s) = []"
  by (simp_all add: new_task_func_def events_def)

lemma add_continuation_pending [simp]:
  "state n = pending \<Longrightarrow> \<not> sealed (continuations n) \<Longrightarrow>
     add_continuation c n = n\<lparr>continuations := (continuations n)\<lparr>entries := entries (continuations n) @ [c]\<rparr>\<rparr>"
  by (simp add: add_continuation_def is_finished_def try_add_def)

lemma store_state_fields [simp]:
  "state (store_state s n) = s"
  "storage (store_state s n) = storage n"
  "continuations (store_state s n) = continuations n"
  "func_live (store_state s n) = func_live n"
  "trace (store_state s n) = trace n @ [(Store_state s, s, storage n)]"
  "events (store_state s n) = events n @ [Store_state s]"
  by (simp_all add: store_state_def events_def)

lemma store_result_fields [simp]:
  "state (store_result v n) = state n"
  "storage (store_result v n) = Holds_result v"
  "continuations (store_result v n) = continuations n"
  "func_live (store_result v n) = func_live n"
  "trace (store_result v n) = trace n @ [(Set_result v, state n, Holds_result v)]"
  "events (store_result v n) = events n @ [Set_result v]"
  by (simp_all add: store_result_def events_def)

lemma set_exception_fields [simp]:
  "state (set_exception e n) = state n"
  "storage (set_exception e n) = Holds_except e"
  "continuations (set_exception e n) = continuations n"
  "func_live (set_exception e n) = func_live n"
  "trace (set_exception e n) = trace n @ [(Set_exception e, state n, Holds_except e)]"
  "events (set_exception e n) = events n @ [Set_exception e]"
  by (simp_all add: set_exception_def events_def)

lemma destroy_func_fields [simp]:
  "state (destroy_func n) = state n"
  "storage (destroy_func n) = storage n"
  "continuations (destroy_func n) = continuations n"
  "func_live (destroy_func n) = False"
  "trace (destroy_func n) = trace n @ [(Destroy_func, state n, storage n)]"
  "events (destroy_func n) = events n @ [Destroy_func]"
  by (simp_all add: destroy_func_def events_def)

lemma fold_run_continuation_fields [simp]:
  "state (fold run_continuation cs n) = state n"
  "storage (fold run_continuation cs n) = storage n"
  "continuations (fold run_continuation cs n) = continuations n"
  "func_live (fold run_continuation cs n) = func_live n"
  by (induction cs arbitrary: n; simp add: run_continuation_def)+

lemma fold_run_continuation_trace [simp]:
  "trace (fold run_continuation cs n)
     = trace n @ map (\<lambda>c. (Schedule_cont c, state n, storage n)) cs"
  by (induction cs arbitrary: n) (simp_all add: run_continuation_def)

lemma fold_run_continuation_events [simp]:
  "events (fold run_continuation cs n) = events n @ map Schedule_cont cs"
  by (simp add: events_def comp_def)

lemma run_continuations_fields [simp]:
  "state (run_continuations n) = state n"
  "storage (run_continuations n) = storage n"
  "continuations (run_continuations n) = \<lparr>entries = [], sealed = True\<rparr>"
  "func_live (run_continuations n) = func_live n"
  "trace (run_continuations n)
     = trace n @ (Flush_and_lock, state n, storage n)
         # map (\<lambda>c. (Schedule_cont c, state n, storage n)) (entries (continuations n))"
  "events (run_continuations n)
     = events n @ Flush_and_lock # map Schedule_cont (entries (continuations n))"
  by (simp_all add: run_continuations_def flush_and_lock_def)

lemma finish_fields [simp]:
  "state (finish n) = completed"
  "storage (finish n) = storage n"
  "continuations (finish n) = \<lparr>entries = [], sealed = True\<rparr>"
  "func_live (finish n) = func_live n"
  "events (finish n)
     = events n @ Store_state completed # Flush_and_lock
         # map Schedule_cont (entries (continuations n))"
  by (simp_all add: finish_def)

lemma cancel_base_fields [simp]:
  "state (cancel_base e n) = canceled"
  "storage (cancel_base e n) = Holds_except e"
  "continuations (cancel_base e n) = \<lparr>entries = [], sealed = True\<rparr>"
  "func_live (cancel_base e n) = func_live n"
  "events (cancel_base e n)
     = events n @ Set_exception e # Store_state canceled # Flush_and_lock
         # map Schedule_cont (entries (continuations n))"
  by (simp_all add: cancel_base_def)

lemma cancel_fields [simp]:
  "state (cancel e n) = canceled"
  "storage (cancel e n) = Holds_except e"
  "continuations (cancel e n) = \<lparr>entries = [], sealed = True\<rparr>"
  "func_live (cancel e n) = False"
  "events (cancel e n)
     = events n @ Destroy_func # Set_exception e # Store_state canceled # Flush_and_lock
         # map Schedule_cont (entries (continuations n))"
  by (simp_all add: cancel_def)


subsection \<open>Reading a finished node\<close>

lemma get_shared_completed:
  "state n = completed \<Longrightarrow> storage n = Holds_result v \<Longrightarrow> get Shared_task_handle n = (Value v, n)"
  by (simp add: get_def wait_and_throw_def wait_def is_finished_def get_result_def)

lemma get_task_completed:
  "state n = completed \<Longrightarrow> storage n = Holds_result v \<Longrightarrow>
     get Task_handle n = (Value v, n\<lparr>storage := Holds_moved_result\<rparr>)"
  by (simp add: get_def wait_and_throw_def wait_def is_finished_def get_result_def)

lemma get_canceled:
  "state n = canceled \<Longrightarrow> storage n = Holds_except e \<Longrightarrow> get h n = (Rethrown e, n)"
  by (simp add: get_def wait_and_throw_def wait_def is_finished_def get_exception_def)

lemma get_repeatedly_shared:
  "state n = completed \<Longrightarrow> storage n = Holds_result v \<Longrightarrow>
     get_repeatedly k Shared_task_handle n = replicate k (Value v)"
  by (induction k) (simp_all add: get_shared_completed)

subsection \<open>The run of a root task\<close>

lemma run_root_returns:
  "move_throws v = None \<Longrightarrow>
     run (root_exec_func move_throws (Inr v)) t
       = Some (finish (destroy_func (store_result v (record_event Invoke_func t))))"
  by (simp add: run_def root_exec_func_def set_result_def Let_def)

lemma run_root_throws:
  "run (root_exec_func move_throws (Inl e)) t = Some (cancel e (record_event Invoke_func t))"
  by (simp add: run_def root_exec_func_def Let_def)

lemma run_root_move_throws:
  "move_throws v = Some e \<Longrightarrow>
     run (root_exec_func move_throws (Inr v)) t = Some (cancel e (record_event Invoke_func t))"
  by (simp add: run_def root_exec_func_def set_result_def Let_def)

text \<open>
  C2. A root task whose callable returns \<open>v\<close>, where the move construction of the result
  from \<open>v\<close> does not throw: the run calls the callable, constructs \<open>v\<close> in the result
  slot, destroys the callable, stores the state completed and drains the continuations,
  in this order. Afterwards \<open>get\<close> through the exclusive handle returns \<open>v\<close> and leaves
  the slot moved-from, and any number of calls of \<open>get\<close> through a shared handle return
  \<open>v\<close> each time.
\<close>

theorem root_task_value_round_trip:
  assumes "move_throws v = None"
  shows "\<exists>t'. run (root_exec_func move_throws (Inr v)) t = Some t'
           \<and> events t' = events t @ [Invoke_func, Set_result v, Destroy_func, Store_state completed,
                                      Flush_and_lock] @ map Schedule_cont (entries (continuations t))
           \<and> state t' = completed \<and> storage t' = Holds_result v \<and> \<not> func_live t'
           \<and> get Task_handle t' = (Value v, t'\<lparr>storage := Holds_moved_result\<rparr>)
           \<and> get_repeatedly k Shared_task_handle t' = replicate k (Value v)"
proof -
  let ?t' = "finish (destroy_func (store_result v (record_event Invoke_func t)))"
  have r: "run (root_exec_func move_throws (Inr v)) t = Some ?t'"
    using assms by (rule run_root_returns)
  have s: "state ?t' = completed" and st: "storage ?t' = Holds_result v"
    by simp_all
  have ev: "events ?t' = events t @ [Invoke_func, Set_result v, Destroy_func, Store_state completed,
                                      Flush_and_lock] @ map Schedule_cont (entries (continuations t))"
    by simp
  have f: "\<not> func_live ?t'" by simp
  from r ev s st f get_task_completed [OF s st] get_repeatedly_shared [OF s st, of k]
  show ?thesis by blast
qed

theorem root_task_value_round_trip_witness:
  "(\<lambda>v::nat. None :: nat option) 42 = None
   \<and> (\<exists>t'. run (root_exec_func (\<lambda>v. None) (Inr 42)) (add_continuation (Task_cont 5) (new_task_func 0))
               = Some t'
          \<and> events t' = [Invoke_func, Set_result (42::nat), Destroy_func, Store_state completed,
                          Flush_and_lock, Schedule_cont (Task_cont 5) :: (nat, nat) event]
          \<and> fst (get Task_handle t') = Value 42
          \<and> storage (snd (get Task_handle t')) = Holds_moved_result
          \<and> get_repeatedly 3 Shared_task_handle t' = [Value 42, Value 42, Value 42])"
proof -
  let ?t = "add_continuation (Task_cont 5) (new_task_func 0) :: (nat, nat) task_node"
  have e: "events ?t = []" "entries (continuations ?t) = [Task_cont 5]"
    by simp_all
  have "\<exists>t'. run (root_exec_func (\<lambda>v. None) (Inr 42)) ?t = Some t'
    \<and> events t' = events ?t @ [Invoke_func, Set_result 42, Destroy_func, Store_state completed,
                                   Flush_and_lock] @ map Schedule_cont (entries (continuations ?t))
    \<and> state t' = completed \<and> storage t' = Holds_result 42 \<and> \<not> func_live t'
    \<and> get Task_handle t' = (Value 42, t'\<lparr>storage := Holds_moved_result\<rparr>)
    \<and> get_repeatedly 3 Shared_task_handle t' = replicate 3 (Value 42)"
    by (rule root_task_value_round_trip [of "\<lambda>v. None" 42 ?t 3]) simp
  then obtain t' where "run (root_exec_func (\<lambda>v. None) (Inr 42)) ?t = Some t'"
    and "events t' = events ?t @ [Invoke_func, Set_result 42, Destroy_func, Store_state completed,
                                   Flush_and_lock] @ map Schedule_cont (entries (continuations ?t))"
    and "get Task_handle t' = (Value 42, t'\<lparr>storage := Holds_moved_result\<rparr>)"
    and "get_repeatedly 3 Shared_task_handle t' = replicate 3 (Value 42)"
    by blast
  then have "run (root_exec_func (\<lambda>v. None) (Inr 42)) ?t = Some t'
          \<and> events t' = [Invoke_func, Set_result (42::nat), Destroy_func, Store_state completed,
                          Flush_and_lock, Schedule_cont (Task_cont 5)]
          \<and> fst (get Task_handle t') = Value 42
          \<and> storage (snd (get Task_handle t')) = Holds_moved_result
          \<and> get_repeatedly 3 Shared_task_handle t' = [Value 42, Value 42, Value 42]"
    by (simp add: e numeral_3_eq_3)
  then show ?thesis by auto
qed

subsection \<open>The value continuation of a canceled parent\<close>

text \<open>
  C4. A value continuation that runs when its parent is canceled with exception \<open>e\<close>:
  whatever the callable, the run does not call it (the steps of the run are those of
  \<open>cancel e\<close>, with no \<open>Invoke_func\<close> among them); the continuation holds a copy of
  \<open>e\<close> in its exception slot, is in state canceled, and its own continuations have been
  drained.
\<close>

theorem value_continuation_of_canceled_parent:
  assumes "state parent = canceled" and "storage parent = Holds_except e"
  shows "\<exists>t'. run (continuation_exec_func_value h move_throws func parent) t = Some t'
           \<and> t' = cancel e t
           \<and> events t' = events t @ [Destroy_func, Set_exception e, Store_state canceled,
                                      Flush_and_lock] @ map Schedule_cont (entries (continuations t))
           \<and> Invoke_func \<notin> set (drop (length (events t)) (events t'))
           \<and> storage t' = Holds_except e \<and> state t' = canceled
           \<and> continuations t' = \<lparr>entries = [], sealed = True\<rparr>"
proof -
  have "run (continuation_exec_func_value h move_throws func parent) t = Some (cancel e t)"
    using assms by (simp add: run_def continuation_exec_func_value_def get_exception_def)
  moreover have "Invoke_func \<notin> set (drop (length (events t)) (events (cancel e t)))"
    by auto
  ultimately show ?thesis by simp
qed

theorem value_continuation_of_canceled_parent_witness:
  "state (cancel (3::nat) (new_task_func 0 :: (nat, nat) task_node)) = canceled
   \<and> storage (cancel (3::nat) (new_task_func 0 :: (nat, nat) task_node)) = Holds_except 3
   \<and> (\<exists>t'. run (continuation_exec_func_value Task_handle (\<lambda>v. None) (\<lambda>a. Inr (a + 2))
                  (cancel 3 (new_task_func 0))) (new_task_func 1 :: (nat, nat) task_node) = Some t'
          \<and> events t' = [Destroy_func, Set_exception 3, Store_state canceled, Flush_and_lock]
          \<and> storage t' = Holds_except 3 \<and> state t' = canceled)"
proof -
  let ?p = "cancel (3::nat) (new_task_func 0 :: (nat, nat) task_node)"
  let ?t = "new_task_func 1 :: (nat, nat) task_node"
  have h1: "state ?p = canceled" and h2: "storage ?p = Holds_except 3" by simp_all
  from value_continuation_of_canceled_parent [OF h1 h2, of Task_handle "\<lambda>v. None" "\<lambda>a. Inr (a + 2)" ?t]
  obtain t' where "run (continuation_exec_func_value Task_handle (\<lambda>v. None) (\<lambda>a. Inr (a + 2)) ?p) ?t = Some t'"
    and "events t' = events ?t @ [Destroy_func, Set_exception 3, Store_state canceled,
                                      Flush_and_lock] @ map Schedule_cont (entries (continuations ?t))"
    and "storage t' = Holds_except 3" and "state t' = canceled"
    by blast
  then have "run (continuation_exec_func_value Task_handle (\<lambda>v. None) (\<lambda>a. Inr (a + 2)) ?p) ?t = Some t'
          \<and> events t' = [Destroy_func, Set_exception 3, Store_state canceled, Flush_and_lock]
          \<and> storage t' = Holds_except 3 \<and> state t' = canceled"
    by simp
  with h1 h2 show ?thesis by blast
qed

subsection \<open>The order of the steps of the cancel hook\<close>

text \<open>
  C5, as stated, fails: on a fresh task canceled with exception 7 the hook destroys the
  function object first and stores the exception second, whereas the order of the
  specification stores the exception first.
\<close>

theorem cancel_order_counterexample:
  "events (cancel (7::nat) (new_task_func 0 :: (nat, nat) task_node))
     = [Destroy_func, Set_exception 7, Store_state canceled, Flush_and_lock]
   \<and> events (cancel_as_specified (7::nat) (new_task_func 0 :: (nat, nat) task_node))
     = [Set_exception 7, Destroy_func, Store_state canceled, Flush_and_lock]
   \<and> events (cancel (7::nat) (new_task_func 0 :: (nat, nat) task_node))
     \<noteq> events (cancel_as_specified (7::nat) (new_task_func 0 :: (nat, nat) task_node))"
  by (simp add: cancel_as_specified_def)

text \<open>
  C5, amended. The cancel hook of a task with a function destroys the function object,
  then stores the exception in the exception slot, then stores the state canceled, then
  drains the continuation list. It ends in state canceled with the exception in the slot,
  no function object and a sealed, empty list. An exception that leaves the user's callable
  during the run is routed through the same hook, with the same steps after the call.
\<close>

theorem cancel_order:
  "events (cancel e t)
     = events t @ [Destroy_func, Set_exception e, Store_state canceled, Flush_and_lock]
         @ map Schedule_cont (entries (continuations t))
   \<and> state (cancel e t) = canceled \<and> storage (cancel e t) = Holds_except e
   \<and> \<not> func_live (cancel e t) \<and> continuations (cancel e t) = \<lparr>entries = [], sealed = True\<rparr>
   \<and> run (root_exec_func move_throws (Inl e)) t = Some (cancel e (record_event Invoke_func t))
   \<and> events (cancel e (record_event Invoke_func t))
     = events t @ [Invoke_func, Destroy_func, Set_exception e, Store_state canceled, Flush_and_lock]
         @ map Schedule_cont (entries (continuations t))"
  by (simp add: run_root_throws)

subsection \<open>Unwrapping\<close>

lemma run_each_append:
  "run_each f (xs @ ys) s = (case run_each f xs s of None \<Rightarrow> None | Some s' \<Rightarrow> run_each f ys s')"
  by (induction xs arbitrary: s) (simp_all split: option.splits)

lemma run_each_task_conts:
  "Unwrap_cont \<notin> set cs \<Longrightarrow>
     run_each (sys_run_continuation h mv) cs sys
       = Some (sys\<lparr>child_task := fold run_continuation cs (child_task sys)\<rparr>)"
proof (induction cs arbitrary: sys)
  case Nil
  then show ?case by simp
next
  case (Cons c cs)
  then obtain k where c: "c = Task_cont k" by (cases c) auto
  from Cons show ?case by (simp add: c sys_run_continuation_def)
qed

lemma unwrapped_func_completed:
  assumes "state (child_task sys) = completed" and "storage (child_task sys) = Holds_result v"
  shows "\<exists>sys'. unwrapped_func h mv sys = Some sys'
           \<and> parent_task sys' = (case mv v of
                               Some e \<Rightarrow> cancel_base e (parent_task sys)
                             | None \<Rightarrow> finish (store_result v (parent_task sys)))
           \<and> state (child_task sys') = completed
           \<and> trace (child_task sys') = trace (child_task sys)
           \<and> continuations (child_task sys') = continuations (child_task sys)"
  using assms
  by (cases "mv v"; cases h) (simp_all add: unwrapped_func_def get_result_def set_result_def)

lemma unwrapped_func_canceled:
  assumes "state (child_task sys) = canceled" and "storage (child_task sys) = Holds_except e"
  shows "unwrapped_func h mv sys = Some (sys\<lparr>parent_task := cancel_base e (parent_task sys)\<rparr>)"
  using assms by (simp add: unwrapped_func_def get_exception_def)

lemma terminal_outcome_finish [simp]:
  "terminal_outcome (finish (store_result v n)) = Some (Inr v)"
  by (simp add: terminal_outcome_def)

lemma terminal_outcome_cancel_base [simp]:
  "terminal_outcome (cancel_base e n) = Some (Inl e)"
  by (simp add: terminal_outcome_def)

lemma terminal_outcome_same [simp]:
  "terminal_outcome (record_event ev n) = terminal_outcome n"
  "terminal_outcome (run_continuation c n) = terminal_outcome n"
  "terminal_outcome (fold run_continuation cs n) = terminal_outcome n"
  "terminal_outcome (n\<lparr>continuations := cv\<rparr>) = terminal_outcome n"
  by (simp_all add: terminal_outcome_def run_continuation_def)

lemma terminal_outcome_cases:
  "terminal_outcome n = Some out \<Longrightarrow>
     (\<exists>v. out = Inr v \<and> state n = completed \<and> storage n = Holds_result v)
     \<or> (\<exists>e. out = Inl e \<and> state n = canceled \<and> storage n = Holds_except e)"
  by (cases "(state n, storage n)" rule: outcome_of.cases) (auto simp: terminal_outcome_def)

text \<open>The forwarding continuation run on a child that has come to its end with \<open>out\<close>.\<close>

lemma unwrapped_func_forwards:
  assumes "terminal_outcome (child_task sys) = Some out"
  shows "\<exists>sys'. unwrapped_func h mv sys = Some sys'
           \<and> parent_task sys' = deliver (forwarded mv out) (parent_task sys)"
proof -
  from terminal_outcome_cases [OF assms] show ?thesis
  proof
    assume "\<exists>v. out = Inr v \<and> state (child_task sys) = completed \<and> storage (child_task sys) = Holds_result v"
    then obtain v where v: "out = Inr v" "state (child_task sys) = completed"
      "storage (child_task sys) = Holds_result v" by blast
    from unwrapped_func_completed [OF v(2,3), of h mv] v(1) show ?thesis
      by (auto simp: forwarded_def deliver_def split: option.splits)
  next
    assume "\<exists>e. out = Inl e \<and> state (child_task sys) = canceled \<and> storage (child_task sys) = Holds_except e"
    then obtain e where e: "out = Inl e" "state (child_task sys) = canceled"
      "storage (child_task sys) = Holds_except e" by blast
    from unwrapped_func_canceled [OF e(2,3), of h mv] e(1) show ?thesis
      by (simp add: forwarded_def deliver_def)
  qed
qed

lemma terminal_outcome_deliver [simp]:
  "terminal_outcome (deliver out p) = Some out"
  by (cases out) (simp_all add: deliver_def)

text \<open>\<open>unwrapped_finish\<close> on a child that has finished: the forwarding runs at once.\<close>

lemma unwrapped_finish_child_finished:
  assumes "terminal_outcome (child_task sys) = Some out"
  shows "\<exists>sys'. unwrapped_finish h mv None sys = Some sys'
           \<and> parent_task sys' = deliver (forwarded mv out) (destroy_func (store_state unwrapped (parent_task sys)))"
proof -
  let ?sys1 = "sys\<lparr>parent_task := destroy_func (store_state unwrapped (parent_task sys))\<rparr>"
  let ?sys2 = "?sys1\<lparr>child_task := run_continuation Unwrap_cont (child_task ?sys1)\<rparr>"
  from terminal_outcome_cases [OF assms] have fin: "is_finished (state (child_task sys))"
    by (auto simp: is_finished_def)
  have "terminal_outcome (child_task ?sys2) = Some out"
    using assms by simp
  from unwrapped_func_forwards [OF this, of h mv] obtain sys' where
    s: "unwrapped_func h mv ?sys2 = Some sys'"
       "parent_task sys' = deliver (forwarded mv out) (parent_task ?sys2)"
    by blast
  have "unwrapped_finish h mv None sys = Some sys'"
    using fin s(1)
    by (simp add: unwrapped_finish_def then_inline_def sys_add_continuation_def
        sys_run_continuation_def Let_def)
  with s(2) show ?thesis by simp
qed

text \<open>
  \<open>unwrapped_finish\<close> on a child that has not finished: the forwarding continuation is
  registered and the parent waits in state unwrapped.
\<close>

lemma unwrapped_finish_child_unfinished:
  assumes "\<not> is_finished (state (child_task sys))" and "\<not> sealed (continuations (child_task sys))"
  shows "unwrapped_finish h mv None sys
           = Some \<lparr>parent_task = destroy_func (store_state unwrapped (parent_task sys)),
                   child_task = (child_task sys)\<lparr>continuations :=
                     (continuations (child_task sys))\<lparr>entries := entries (continuations (child_task sys)) @ [Unwrap_cont]\<rparr>\<rparr>\<rparr>"
  using assms
  by (simp add: unwrapped_finish_def then_inline_def sys_add_continuation_def try_add_def Let_def)

text \<open>The child of such a system comes to its end: the entry forwards the outcome.\<close>

lemma sys_run_continuations_forwards:
  assumes "entries (continuations (child_task sys)) = cs @ [Unwrap_cont]"
    and "Unwrap_cont \<notin> set cs"
    and "terminal_outcome (child_task sys) = Some out"
  shows "\<exists>sys'. sys_run_continuations h mv sys = Some sys'
           \<and> parent_task sys' = deliver (forwarded mv out) (parent_task sys)"
proof -
  let ?c0 = "record_event Flush_and_lock ((child_task sys)\<lparr>continuations := \<lparr>entries = [], sealed = True\<rparr>\<rparr>)"
  let ?sys0 = "sys\<lparr>child_task := ?c0\<rparr>"
  let ?sys1 = "?sys0\<lparr>child_task := fold run_continuation cs (child_task ?sys0)\<rparr>"
  let ?sys2 = "?sys1\<lparr>child_task := run_continuation Unwrap_cont (child_task ?sys1)\<rparr>"
  have r1: "run_each (sys_run_continuation h mv) cs ?sys0 = Some ?sys1"
    using assms(2) by (rule run_each_task_conts)
  have "terminal_outcome (child_task ?sys2) = Some out"
    using assms(3) by simp
  from unwrapped_func_forwards [OF this, of h mv] obtain sys' where
    s: "unwrapped_func h mv ?sys2 = Some sys'"
       "parent_task sys' = deliver (forwarded mv out) (parent_task ?sys2)"
    by blast
  have "sys_run_continuation h mv Unwrap_cont ?sys1 = Some sys'"
    using s(1) by (simp add: sys_run_continuation_def)
  then have "run_each (sys_run_continuation h mv) (cs @ [Unwrap_cont]) ?sys0 = Some sys'"
    using r1 by (simp add: run_each_append)
  then have "sys_run_continuations h mv sys = Some sys'"
    using assms(1) by (simp add: sys_run_continuations_def flush_and_lock_def)
  with s(2) show ?thesis by simp
qed

lemma child_terminates_forwards:
  assumes "entries (continuations (child_task sys)) = cs @ [Unwrap_cont]"
    and "Unwrap_cont \<notin> set cs"
  shows "\<exists>sys'. child_terminates h mv out sys = Some sys'
           \<and> parent_task sys' = deliver (forwarded mv out) (parent_task sys)"
proof (cases out)
  case (Inl e)
  let ?sys = "sys\<lparr>child_task := store_state canceled (set_exception e (child_task sys))\<rparr>"
  have a: "entries (continuations (child_task ?sys)) = cs @ [Unwrap_cont]" using assms(1) by simp
  have b: "terminal_outcome (child_task ?sys) = Some out"
    by (simp add: Inl terminal_outcome_def)
  from sys_run_continuations_forwards [OF a assms(2) b, of h mv]
  show ?thesis by (simp add: child_terminates_def sys_cancel_base_def Inl)
next
  case (Inr v)
  let ?sys = "sys\<lparr>child_task := store_state completed (store_result v (child_task sys))\<rparr>"
  have a: "entries (continuations (child_task ?sys)) = cs @ [Unwrap_cont]" using assms(1) by simp
  have b: "terminal_outcome (child_task ?sys) = Some out"
    by (simp add: Inr terminal_outcome_def)
  from sys_run_continuations_forwards [OF a assms(2) b, of h mv]
  show ?thesis by (simp add: child_terminates_def sys_finish_def Inr)
qed


lemma deliver_fields [simp]:
  "func_live (deliver out p) = func_live p"
  "is_finished (state (deliver out p))"
  "continuations (deliver out p) = \<lparr>entries = [], sealed = True\<rparr>"
  by (cases out; simp add: deliver_def is_finished_def)+

lemma events_deliver:
  "events (deliver out p)
     = events p @ (case out of
                     Inl e \<Rightarrow> [Set_exception e, Store_state canceled]
                   | Inr v \<Rightarrow> [Set_result v, Store_state completed])
         @ Flush_and_lock # map Schedule_cont (entries (continuations p))"
  by (cases out) (simp_all add: deliver_def)

lemma unwrap_registered:
  assumes "terminal_outcome (child_task sys) = Some out
           \<or> (\<not> is_finished (state (child_task sys)) \<and> \<not> sealed (continuations (child_task sys))
               \<and> Unwrap_cont \<notin> set (entries (continuations (child_task sys))))"
  shows "\<exists>sys1 sys2.
           unwrapped_finish h mv None sys = Some sys1
           \<and> \<not> func_live (parent_task sys1)
           \<and> (if is_finished (state (child_task sys)) then sys2 = sys1
               else parent_task sys1 = destroy_func (store_state unwrapped (parent_task sys))
                    \<and> entries (continuations (child_task sys1))
                        = entries (continuations (child_task sys)) @ [Unwrap_cont]
                    \<and> child_terminates h mv out sys1 = Some sys2)
           \<and> parent_task sys2
               = deliver (forwarded mv out) (destroy_func (store_state unwrapped (parent_task sys)))"
proof (cases "is_finished (state (child_task sys))")
  case True
  with assms have t: "terminal_outcome (child_task sys) = Some out" by blast
  from unwrapped_finish_child_finished [OF t, of h mv] obtain sys' where
    s: "unwrapped_finish h mv None sys = Some sys'"
       "parent_task sys'
          = deliver (forwarded mv out) (destroy_func (store_state unwrapped (parent_task sys)))"
    by blast
  have "\<not> func_live (parent_task sys')" by (simp add: s(2))
  then show ?thesis using s True
    by (intro exI [of _ sys']) simp
next
  case False
  from False have nt: "terminal_outcome (child_task sys) \<noteq> Some out"
    using terminal_outcome_cases [of "child_task sys" out] by (auto simp: is_finished_def)
  with assms have u: "\<not> sealed (continuations (child_task sys))"
    "Unwrap_cont \<notin> set (entries (continuations (child_task sys)))" by blast+
  let ?sys1 = "\<lparr>parent_task = destroy_func (store_state unwrapped (parent_task sys)),
                 child_task = (child_task sys)\<lparr>continuations :=
                   (continuations (child_task sys))\<lparr>entries :=
                      entries (continuations (child_task sys)) @ [Unwrap_cont]\<rparr>\<rparr>\<rparr>"
  have s1: "unwrapped_finish h mv None sys = Some ?sys1"
    using False u(1) by (rule unwrapped_finish_child_unfinished)
  have e: "entries (continuations (child_task ?sys1))
             = entries (continuations (child_task sys)) @ [Unwrap_cont]"
    by simp
  from child_terminates_forwards [OF e u(2), of h mv out] obtain sys2 where
    s2: "child_terminates h mv out ?sys1 = Some sys2"
        "parent_task sys2 = deliver (forwarded mv out) (parent_task ?sys1)"
    by blast
  with s1 False show ?thesis
    by (intro exI [of _ ?sys1] exI [of _ sys2]) simp
qed

lemma unwrapped_finish_then_throws:
  "unwrapped_finish h mv (Some e) sys
     = Some (sys\<lparr>parent_task := deliver (Inl e) (destroy_func (store_state unwrapped (parent_task sys)))\<rparr>)"
  by (simp add: unwrapped_finish_def then_inline_def Let_def deliver_def)

text \<open>
  A child whose list holds no forwarding continuation comes to its end: the parent is as
  before.
\<close>

lemma child_terminates_no_forward:
  assumes "Unwrap_cont \<notin> set (entries (continuations (child_task sys)))"
  shows "\<exists>sys'. child_terminates h mv out sys = Some sys'
           \<and> parent_task sys' = parent_task sys
           \<and> terminal_outcome (child_task sys') = Some out"
proof (cases out)
  case (Inl e)
  let ?sys = "sys\<lparr>child_task := store_state canceled (set_exception e (child_task sys))\<rparr>"
  let ?sys0 = "?sys\<lparr>child_task := record_event Flush_and_lock
                 ((child_task ?sys)\<lparr>continuations := \<lparr>entries = [], sealed = True\<rparr>\<rparr>)\<rparr>"
  have "run_each (sys_run_continuation h mv) (entries (continuations (child_task sys))) ?sys0
          = Some (?sys0\<lparr>child_task := fold run_continuation (entries (continuations (child_task sys)))
                                         (child_task ?sys0)\<rparr>)"
    using assms by (rule run_each_task_conts)
  then show ?thesis
    by (simp add: child_terminates_def sys_cancel_base_def sys_run_continuations_def
        flush_and_lock_def Inl terminal_outcome_def)
next
  case (Inr v)
  let ?sys = "sys\<lparr>child_task := store_state completed (store_result v (child_task sys))\<rparr>"
  let ?sys0 = "?sys\<lparr>child_task := record_event Flush_and_lock
                 ((child_task ?sys)\<lparr>continuations := \<lparr>entries = [], sealed = True\<rparr>\<rparr>)\<rparr>"
  have "run_each (sys_run_continuation h mv) (entries (continuations (child_task sys))) ?sys0
          = Some (?sys0\<lparr>child_task := fold run_continuation (entries (continuations (child_task sys)))
                                         (child_task ?sys0)\<rparr>)"
    using assms by (rule run_each_task_conts)
  then show ?thesis
    by (simp add: child_terminates_def sys_finish_def sys_run_continuations_def
        flush_and_lock_def Inr terminal_outcome_def)
qed

lemma unwrap_registration_fails:
  assumes "terminal_outcome (child_task sys) = Some out
           \<or> (\<not> is_finished (state (child_task sys)) \<and> \<not> sealed (continuations (child_task sys))
               \<and> Unwrap_cont \<notin> set (entries (continuations (child_task sys))))"
  shows "\<exists>sys1 sys2.
           unwrapped_finish h mv (Some e) sys = Some sys1
           \<and> \<not> func_live (parent_task sys1)
           \<and> (if is_finished (state (child_task sys)) then sys2 = sys1
               else parent_task sys1
                      = deliver (Inl e) (destroy_func (store_state unwrapped (parent_task sys)))
                    \<and> entries (continuations (child_task sys1))
                        = entries (continuations (child_task sys))
                    \<and> child_terminates h mv out sys1 = Some sys2)
           \<and> parent_task sys2
               = deliver (Inl e) (destroy_func (store_state unwrapped (parent_task sys)))"
proof -
  let ?sys1 = "sys\<lparr>parent_task := deliver (Inl e) (destroy_func (store_state unwrapped (parent_task sys)))\<rparr>"
  have s1: "unwrapped_finish h mv (Some e) sys = Some ?sys1"
    by (rule unwrapped_finish_then_throws)
  have nf: "\<not> func_live (parent_task ?sys1)" by simp
  show ?thesis
  proof (cases "is_finished (state (child_task sys))")
    case True
    with s1 nf show ?thesis by (intro exI [of _ ?sys1]) simp
  next
    case False
    from False have "terminal_outcome (child_task sys) \<noteq> Some out"
      using terminal_outcome_cases [of "child_task sys" out] by (auto simp: is_finished_def)
    with assms have "Unwrap_cont \<notin> set (entries (continuations (child_task sys)))" by blast
    then have "Unwrap_cont \<notin> set (entries (continuations (child_task ?sys1)))" by simp
    from child_terminates_no_forward [OF this, of h mv out] obtain sys2 where
      "child_terminates h mv out ?sys1 = Some sys2" "parent_task sys2 = parent_task ?sys1"
      by blast
    with s1 nf False show ?thesis
      by (intro exI [of _ ?sys1] exI [of _ sys2]) simp
  qed
qed

text \<open>
  C3, as stated, fails where creating the forwarding continuation throws: with a fresh
  parent, a fresh child and \<^verbatim>\<open>then\<close> throwing 6, \<open>unwrapped_finish\<close> registers
  nothing on the child and cancels the parent with 6 (the handler of
  \<^verbatim>\<open>unwrapped_finish\<close>); the child then completes with 42, and the parent's outcome
  stays the exception 6, not the child's 42.
\<close>

theorem unwrap_registration_failure_counterexample:
  "map_option (\<lambda>s. (terminal_outcome (parent_task s), entries (continuations (child_task s))))
     (unwrapped_finish Task_handle (\<lambda>v. None) (Some 6)
        \<lparr>parent_task = new_task_func 0 :: (nat, nat) task_node, child_task = new_task_func 1\<rparr>)
     = Some (Some (Inl 6), [])
   \<and> Option.bind
       (unwrapped_finish Task_handle (\<lambda>v. None) (Some 6)
          \<lparr>parent_task = new_task_func 0 :: (nat, nat) task_node, child_task = new_task_func 1\<rparr>)
       (\<lambda>s. map_option (\<lambda>s'. (terminal_outcome (parent_task s'), terminal_outcome (child_task s')))
              (child_terminates Task_handle (\<lambda>v. None) (Inr 42) s))
     = Some (Some (Inl 6), Some (Inr 42))"
proof -
  let ?sys = "\<lparr>parent_task = new_task_func 0 :: (nat, nat) task_node, child_task = new_task_func 1\<rparr>"
  let ?sys1 = "?sys\<lparr>parent_task := deliver (Inl 6) (destroy_func (store_state unwrapped (parent_task ?sys)))\<rparr>"
  have s1: "unwrapped_finish Task_handle (\<lambda>v. None) (Some 6) ?sys = Some ?sys1"
    by (rule unwrapped_finish_then_throws)
  have "Unwrap_cont \<notin> set (entries (continuations (child_task ?sys1)))" by simp
  from child_terminates_no_forward [OF this, of Task_handle "\<lambda>v. None" "Inr 42"] obtain sys2 where
    "child_terminates Task_handle (\<lambda>v. None) (Inr 42) ?sys1 = Some sys2"
    "parent_task sys2 = parent_task ?sys1" "terminal_outcome (child_task sys2) = Some (Inr 42)"
    by blast
  then show ?thesis
    unfolding s1 by simp
qed

text \<open>
  C3, amended. \<open>unwrapped_finish\<close> on a parent and the child its callable returned.
  The parent first stores the state unwrapped and destroys its callable. Then, where
  creating the forwarding continuation does not throw: if the child has already finished
  with outcome \<open>out\<close>, the forwarding runs at once; if the child has not finished, the
  forwarding continuation is registered at the end of the child's list, the parent stays
  in state unwrapped, and the forwarding runs when the child comes to its end with outcome
  \<open>out\<close>; either way the parent ends with the child's outcome: completed with the
  child's value, or canceled with the child's exception, or, where constructing the
  parent's result from the child's throws, canceled with the exception thrown. Where
  creating the forwarding continuation throws \<open>e\<close>, nothing is registered on the
  child and the parent is canceled with \<open>e\<close>, whatever the outcome of the child before
  or after.
\<close>

theorem unwrap_forwards_child_outcome:
  assumes "terminal_outcome (child_task sys) = Some out
           \<or> (\<not> is_finished (state (child_task sys)) \<and> \<not> sealed (continuations (child_task sys))
               \<and> Unwrap_cont \<notin> set (entries (continuations (child_task sys))))"
  shows "\<exists>sys1 sys2.
           unwrapped_finish h mv then_throws sys = Some sys1
           \<and> events (destroy_func (store_state unwrapped (parent_task sys)))
               = events (parent_task sys) @ [Store_state unwrapped, Destroy_func]
           \<and> state (destroy_func (store_state unwrapped (parent_task sys))) = unwrapped
           \<and> \<not> func_live (parent_task sys1)
           \<and> (if is_finished (state (child_task sys)) then sys2 = sys1
               else (case then_throws of
                       None \<Rightarrow>
                         parent_task sys1 = destroy_func (store_state unwrapped (parent_task sys))
                         \<and> entries (continuations (child_task sys1))
                             = entries (continuations (child_task sys)) @ [Unwrap_cont]
                     | Some e \<Rightarrow>
                         parent_task sys1
                           = deliver (Inl e) (destroy_func (store_state unwrapped (parent_task sys)))
                         \<and> entries (continuations (child_task sys1))
                             = entries (continuations (child_task sys)))
                    \<and> child_terminates h mv out sys1 = Some sys2)
           \<and> parent_task sys2
               = deliver (case then_throws of None \<Rightarrow> forwarded mv out | Some e \<Rightarrow> Inl e)
                   (destroy_func (store_state unwrapped (parent_task sys)))
           \<and> terminal_outcome (parent_task sys2)
               = Some (case then_throws of None \<Rightarrow> forwarded mv out | Some e \<Rightarrow> Inl e)"
proof (cases then_throws)
  case None
  from unwrap_registered [OF assms, of h mv] obtain sys1 sys2 where
    "unwrapped_finish h mv None sys = Some sys1" "\<not> func_live (parent_task sys1)"
    "if is_finished (state (child_task sys)) then sys2 = sys1
     else parent_task sys1 = destroy_func (store_state unwrapped (parent_task sys))
          \<and> entries (continuations (child_task sys1))
              = entries (continuations (child_task sys)) @ [Unwrap_cont]
          \<and> child_terminates h mv out sys1 = Some sys2"
    "parent_task sys2
       = deliver (forwarded mv out) (destroy_func (store_state unwrapped (parent_task sys)))"
    by blast
  then show ?thesis
    unfolding None by (intro exI [of _ sys1] exI [of _ sys2]) (simp split: if_splits)
next
  case (Some e)
  from unwrap_registration_fails [OF assms, of h mv e] obtain sys1 sys2 where
    "unwrapped_finish h mv (Some e) sys = Some sys1" "\<not> func_live (parent_task sys1)"
    "if is_finished (state (child_task sys)) then sys2 = sys1
     else parent_task sys1
            = deliver (Inl e) (destroy_func (store_state unwrapped (parent_task sys)))
          \<and> entries (continuations (child_task sys1)) = entries (continuations (child_task sys))
          \<and> child_terminates h mv out sys1 = Some sys2"
    "parent_task sys2
       = deliver (Inl e) (destroy_func (store_state unwrapped (parent_task sys)))"
    by blast
  then show ?thesis
    unfolding Some by (intro exI [of _ sys1] exI [of _ sys2]) (simp split: if_splits)
qed

theorem unwrap_forwards_child_outcome_witness:
  "\<not> is_finished (state (child_task
        \<lparr>parent_task = new_task_func 0 :: (nat, nat) task_node,
         child_task = add_continuation (Task_cont 1) (new_task_func 0)\<rparr>))
   \<and> \<not> sealed (continuations (child_task
        \<lparr>parent_task = new_task_func 0 :: (nat, nat) task_node,
         child_task = add_continuation (Task_cont 1) (new_task_func 0)\<rparr>))
   \<and> Unwrap_cont \<notin> set (entries (continuations (child_task
        \<lparr>parent_task = new_task_func 0 :: (nat, nat) task_node,
         child_task = add_continuation (Task_cont 1) (new_task_func 0)\<rparr>)))
   \<and> (\<exists>sys1 sys2.
         unwrapped_finish Task_handle (\<lambda>v. None) None
           \<lparr>parent_task = new_task_func 0 :: (nat, nat) task_node,
            child_task = add_continuation (Task_cont 1) (new_task_func 0)\<rparr> = Some sys1
         \<and> state (parent_task sys1) = unwrapped
         \<and> entries (continuations (child_task sys1)) = [Task_cont 1, Unwrap_cont]
         \<and> child_terminates Task_handle (\<lambda>v. None) (Inr 42) sys1 = Some sys2
         \<and> terminal_outcome (parent_task sys2) = Some (Inr 42)
         \<and> events (parent_task sys2)
             = [Store_state unwrapped, Destroy_func, Set_result 42, Store_state completed,
                Flush_and_lock])"
proof -
  let ?sys = "\<lparr>parent_task = new_task_func 0 :: (nat, nat) task_node,
               child_task = add_continuation (Task_cont 1) (new_task_func 0)\<rparr>"
  have h: "\<not> is_finished (state (child_task ?sys))" "\<not> sealed (continuations (child_task ?sys))"
    "Unwrap_cont \<notin> set (entries (continuations (child_task ?sys)))"
    by (simp_all add: is_finished_def)
  then have "terminal_outcome (child_task ?sys) = Some (Inr 42)
           \<or> (\<not> is_finished (state (child_task ?sys)) \<and> \<not> sealed (continuations (child_task ?sys))
               \<and> Unwrap_cont \<notin> set (entries (continuations (child_task ?sys))))"
    by blast
  from unwrap_forwards_child_outcome [OF this, of Task_handle "\<lambda>v. None" None] h(1)
  obtain sys1 sys2 where
    s: "unwrapped_finish Task_handle (\<lambda>v. None) None ?sys = Some sys1"
       "parent_task sys1 = destroy_func (store_state unwrapped (parent_task ?sys))"
       "entries (continuations (child_task sys1))
          = entries (continuations (child_task ?sys)) @ [Unwrap_cont]"
       "child_terminates Task_handle (\<lambda>v. None) (Inr 42) sys1 = Some sys2"
       "parent_task sys2
          = deliver (forwarded (\<lambda>v. None) (Inr 42)) (destroy_func (store_state unwrapped (parent_task ?sys)))"
       "terminal_outcome (parent_task sys2) = Some (forwarded (\<lambda>v. None) (Inr 42))"
    by auto
  have "state (parent_task sys1) = unwrapped" by (simp add: s(2))
  moreover have "entries (continuations (child_task sys1)) = [Task_cont 1, Unwrap_cont]"
    by (simp add: s(3))
  moreover have "terminal_outcome (parent_task sys2) = Some (Inr 42)"
    using s(6) by (simp add: forwarded_def)
  moreover have "events (parent_task sys2)
             = [Store_state unwrapped, Destroy_func, Set_result 42, Store_state completed,
                Flush_and_lock]"
    by (simp add: s(5) forwarded_def events_deliver)
  ultimately show ?thesis using h s(1) s(4) by blast
qed


subsection \<open>The life of a node\<close>

lemma unwrapped_func_parent:
  "unwrapped_func h mv sys = Some sys' \<Longrightarrow>
     (\<exists>e. parent_task sys' = cancel_base e (parent_task sys))
     \<or> (\<exists>v. parent_task sys' = finish (store_result v (parent_task sys)))"
  unfolding unwrapped_func_def set_result_def
  by (auto split: if_splits option.splits prod.splits)

lemma unwrapped_func_delivers:
  assumes "unwrapped_func h mv sys = Some sys'"
  shows "\<exists>out. parent_task sys' = deliver out (parent_task sys)"
proof -
  from unwrapped_func_parent [OF assms] show ?thesis
  proof
    assume "\<exists>e. parent_task sys' = cancel_base e (parent_task sys)"
    then obtain e where "parent_task sys' = deliver (Inl e) (parent_task sys)"
      by (auto simp: deliver_def)
    then show ?thesis by blast
  next
    assume "\<exists>v. parent_task sys' = finish (store_result v (parent_task sys))"
    then obtain v where "parent_task sys' = deliver (Inr v) (parent_task sys)"
      by (auto simp: deliver_def)
    then show ?thesis by blast
  qed
qed

lemma sys_run_unwrap_throws:
  "sys_run (root_exec_func_unwrap h mv (Some e) then_throws) sys
     = Some (sys\<lparr>parent_task := cancel e (record_event Invoke_func (parent_task sys))\<rparr>)"
  by (simp add: sys_run_def root_exec_func_unwrap_def Let_def)

lemma sys_run_unwrap_returns:
  "sys_run (root_exec_func_unwrap h mv None then_throws) sys
     = unwrapped_finish h mv then_throws
         (sys\<lparr>parent_task := record_event Invoke_func (parent_task sys)\<rparr>)"
  by (simp add: sys_run_def root_exec_func_unwrap_def Let_def split: option.splits)

text \<open>
  What \<open>unwrapped_finish\<close> leaves of the parent: it waits, with the forwarding
  continuation appended to the child's list, or an outcome was delivered to it.
\<close>

lemma unwrapped_finish_forms:
  assumes "unwrapped_finish h mv None sys = Some sys'"
  shows "(parent_task sys' = destroy_func (store_state unwrapped (parent_task sys))
            \<and> entries (continuations (child_task sys'))
                = entries (continuations (child_task sys)) @ [Unwrap_cont])
         \<or> (\<exists>out. parent_task sys'
                     = deliver out (destroy_func (store_state unwrapped (parent_task sys))))"
proof -
  let ?sys1 = "sys\<lparr>parent_task := destroy_func (store_state unwrapped (parent_task sys))\<rparr>"
  let ?sys2 = "?sys1\<lparr>child_task := run_continuation Unwrap_cont (child_task ?sys1)\<rparr>"
  show ?thesis
  proof (cases "\<not> is_finished (state (child_task sys)) \<and> \<not> sealed (continuations (child_task sys))")
    case True
    then have "unwrapped_finish h mv None sys
           = Some \<lparr>parent_task = destroy_func (store_state unwrapped (parent_task sys)),
                   child_task = (child_task sys)\<lparr>continuations :=
                     (continuations (child_task sys))\<lparr>entries := entries (continuations (child_task sys)) @ [Unwrap_cont]\<rparr>\<rparr>\<rparr>"
      by (intro unwrapped_finish_child_unfinished) simp_all
    with assms show ?thesis by auto
  next
    case False
    then have "unwrapped_finish h mv None sys = unwrapped_func h mv ?sys2"
      by (auto simp: unwrapped_finish_def then_inline_def sys_add_continuation_def try_add_def
          sys_run_continuation_def Let_def split: option.splits)
    with assms have "unwrapped_func h mv ?sys2 = Some sys'" by simp
    from unwrapped_func_delivers [OF this] show ?thesis by simp
  qed
qed

text \<open>
  The forms of a node at the end of its life, before its destruction. \<open>t1\<close> is the node
  after the call of the callable, \<open>p0\<close> the node that has become unwrapped.
\<close>

lemma live_forms:
  assumes "live mv l t = Some t'" and "fresh_child l"
  defines "t1 \<equiv> record_event Invoke_func t"
  defines "p0 \<equiv> destroy_func (store_state unwrapped (record_event Invoke_func t))"
  shows "t' = t \<or> (\<exists>e. t' = cancel e t) \<or> (\<exists>e. t' = cancel e t1)
         \<or> (\<exists>v. t' = finish (destroy_func (store_result v t1)))
         \<or> t' = p0 \<or> (\<exists>out. t' = deliver out p0)"
proof (cases l)
  case Never_run
  with assms(1) show ?thesis by simp
next
  case (Cancel_hook e)
  with assms(1) show ?thesis by auto
next
  case (Run_root func)
  with assms(1) show ?thesis
    unfolding t1_def
    by (auto simp: run_def root_exec_func_def set_result_def Let_def split: sum.splits option.splits)
next
  case (Run_value_cont h p func)
  with assms(1) show ?thesis
    unfolding t1_def
    by (auto simp: run_def continuation_exec_func_value_def set_result_def Let_def
        split: sum.splits option.splits if_splits)
next
  case (Run_root_unwrap h func_throws then_throws c later)
  let ?sys = "\<lparr>parent_task = t, child_task = c\<rparr>"
  let ?sys1 = "?sys\<lparr>parent_task := record_event Invoke_func (parent_task ?sys)\<rparr>"
  show ?thesis
  proof (cases func_throws)
    case (Some e)
    with assms(1) Run_root_unwrap have "t' = cancel e t1"
      by (simp add: sys_run_unwrap_throws t1_def)
    then show ?thesis by blast
  next
    case None
    note fn = None
    show ?thesis
    proof (cases then_throws)
      case (Some e)
      with assms(1) Run_root_unwrap fn have "t' = deliver (Inl e) p0"
        by (simp add: sys_run_unwrap_returns unwrapped_finish_then_throws p0_def deliver_def)
      then show ?thesis by blast
    next
      case None
      from assms(1) Run_root_unwrap fn None obtain sys where
        s: "unwrapped_finish h mv None ?sys1 = Some sys"
        and r: "(if state (parent_task sys) = unwrapped
                 then (case later of
                         None \<Rightarrow> Some (parent_task sys)
                       | Some out \<Rightarrow> map_option parent_task (child_terminates h mv out sys))
                 else Some (parent_task sys)) = Some t'"
        by (auto simp: sys_run_unwrap_returns split: option.splits)
      from unwrapped_finish_forms [OF s] show ?thesis
      proof
        assume w: "parent_task sys = destroy_func (store_state unwrapped (parent_task ?sys1))
            \<and> entries (continuations (child_task sys))
                = entries (continuations (child_task ?sys1)) @ [Unwrap_cont]"
        then have p: "parent_task sys = p0" by (simp add: p0_def)
        have sp0: "state p0 = unwrapped" by (simp add: p0_def)
        show ?thesis
        proof (cases later)
          case None
          with r p sp0 show ?thesis by simp
        next
          case (Some out)
          from w have e: "entries (continuations (child_task sys)) = entries (continuations c) @ [Unwrap_cont]"
            by simp
          from assms(2) Run_root_unwrap have f: "Unwrap_cont \<notin> set (entries (continuations c))"
            by simp
          from child_terminates_forwards [OF e f, of h mv out] obtain sys' where
            "child_terminates h mv out sys = Some sys'"
            "parent_task sys' = deliver (forwarded mv out) (parent_task sys)"
            by blast
          with r p sp0 Some have "t' = deliver (forwarded mv out) p0" by simp
          then show ?thesis by blast
        qed
      next
        assume "\<exists>out. parent_task sys
                     = deliver out (destroy_func (store_state unwrapped (parent_task ?sys1)))"
        then obtain out where p: "parent_task sys = deliver out p0" by (auto simp: p0_def)
        have "is_finished (state (deliver out p0))" by simp
        then have "state (parent_task sys) \<noteq> unwrapped" by (auto simp: p is_finished_def)
        with r p have "t' = deliver out p0" by simp
        then show ?thesis by blast
      qed
    qed
  qed
qed


subsection \<open>Destruction\<close>

lemma events_destroy:
  "events (destroy n)
     = events n @ (if state n = pending then [Destroy_func] else [])
         @ (if state n = canceled then [Destroy_exception] else [])
         @ (if state n = completed then [Destroy_result] else [])
         @ [Free_node]"
  by (simp add: destroy_def dtor_task_func_def dtor_task_result_def dtor_task_result_holder_def)

lemma func_live_destroy:
  "func_live (destroy n) = (func_live n \<and> state n \<noteq> pending)"
  by (simp add: destroy_def dtor_task_func_def dtor_task_result_def dtor_task_result_holder_def)

lemma count_schedule_events [simp]:
  "count_list (map Schedule_cont cs) Destroy_func = 0"
  "count_list (map Schedule_cont cs) Destroy_result = 0"
  "count_list (map Schedule_cont cs) Destroy_exception = 0"
  by (induction cs) simp_all

lemma count_events_deliver [simp]:
  "count_list (events (deliver out p)) Destroy_func = count_list (events p) Destroy_func"
  "count_list (events (deliver out p)) Destroy_result = count_list (events p) Destroy_result"
  "count_list (events (deliver out p)) Destroy_exception = count_list (events p) Destroy_exception"
  by (cases out; simp add: events_deliver)+

lemma fresh_task_fields:
  assumes "fresh_task t"
  shows "state t = pending" and "func_live t" and "trace t = []" and "events t = []"
    and "\<not> holds_result (storage t)" and "\<not> holds_except (storage t)"
  using assms
  by (auto simp: fresh_task_def events_def holds_result_def holds_except_def split: storage.splits)

lemma holds_simps [simp]:
  "holds_result (Holds_result v)"
  "holds_result Holds_moved_result"
  "\<not> holds_result (Holds_except e)"
  "\<not> holds_result (Holds_sched s)"
  "holds_except (Holds_except e)"
  "\<not> holds_except (Holds_result v)"
  "\<not> holds_except Holds_moved_result"
  "\<not> holds_except (Holds_sched s)"
  by (simp_all add: holds_result_def holds_except_def)

lemma state_deliver [simp]:
  "state (deliver out p) = (case out of Inl e \<Rightarrow> canceled | Inr v \<Rightarrow> completed)"
  "storage (deliver out p) = (case out of Inl e \<Rightarrow> Holds_except e | Inr v \<Rightarrow> Holds_result v)"
  by (cases out; simp add: deliver_def)+

text \<open>
  C9. A fresh task with a function, through any of the lives above: by the time the node
  has been destroyed, the destructor of the function object has run exactly once. The run,
  cancel and unwrap paths have run it once when the node is no longer pending, and then
  \<^verbatim>\<open>~task_func\<close> does not run it; on a node still pending no path has run it, and
  \<^verbatim>\<open>~task_func\<close> does. The function object is alive exactly while the node is
  pending.
\<close>

theorem function_object_destroyed_once:
  assumes "live mv l t = Some t'" and "fresh_child l" and "fresh_task t"
  shows "count_list (events (destroy t')) Destroy_func = 1
         \<and> count_list (events t') Destroy_func = (if state t' = pending then 0 else 1)
         \<and> events (dtor_task_func t') = events t' @ (if state t' = pending then [Destroy_func] else [])
         \<and> func_live t' = (state t' = pending)
         \<and> \<not> func_live (destroy t')"
proof -
  note f = fresh_task_fields [OF assms(3)]
  have main: "count_list (events t') Destroy_func = (if state t' = pending then 0 else 1)
              \<and> func_live t' = (state t' = pending)"
    using live_forms [OF assms(1,2)]
  proof (elim disjE exE)
    assume "t' = t"
    then show ?thesis using f by simp
  next
    fix e assume "t' = cancel e t"
    then show ?thesis using f by simp
  next
    fix e assume "t' = cancel e (record_event Invoke_func t)"
    then show ?thesis using f by simp
  next
    fix v assume "t' = finish (destroy_func (store_result v (record_event Invoke_func t)))"
    then show ?thesis using f by simp
  next
    assume "t' = destroy_func (store_state unwrapped (record_event Invoke_func t))"
    then show ?thesis using f by simp
  next
    fix out assume "t' = deliver out (destroy_func (store_state unwrapped (record_event Invoke_func t)))"
    then show ?thesis using f by (cases out) simp_all
  qed
  then have "count_list (events (destroy t')) Destroy_func = 1"
    by (simp add: events_destroy)
  moreover have "events (dtor_task_func t') = events t' @ (if state t' = pending then [Destroy_func] else [])"
    by (simp add: dtor_task_func_def)
  moreover have "\<not> func_live (destroy t')"
    using main by (simp add: func_live_destroy)
  ultimately show ?thesis using main by blast
qed

theorem function_object_destroyed_once_witness:
  "live (\<lambda>v. None) (Run_root (Inr 42) :: (nat, nat, nat) lifetime) (new_task_func 0)
     = Some (finish (destroy_func (store_result 42 (record_event Invoke_func (new_task_func 0)))))
   \<and> fresh_child (Run_root (Inr 42) :: (nat, nat, nat) lifetime)
   \<and> fresh_task (new_task_func 0 :: (nat, nat) task_node)
   \<and> events (destroy (finish (destroy_func (store_result 42
         (record_event Invoke_func (new_task_func 0 :: (nat, nat) task_node))))))
       = [Invoke_func, Set_result 42, Destroy_func, Store_state completed, Flush_and_lock,
          Destroy_result, Free_node]
   \<and> count_list (events (destroy (finish (destroy_func (store_result 42
         (record_event Invoke_func (new_task_func 0 :: (nat, nat) task_node))))))) Destroy_func = 1"
proof -
  let ?l = "Run_root (Inr 42) :: (nat, nat, nat) lifetime"
  let ?t = "new_task_func 0 :: (nat, nat) task_node"
  let ?t' = "finish (destroy_func (store_result 42 (record_event Invoke_func ?t)))"
  have a: "live (\<lambda>v. None) ?l ?t = Some ?t'" by (simp add: run_root_returns)
  have b: "fresh_child ?l" by simp
  have c: "fresh_task ?t" by (simp add: fresh_task_def)
  have d: "events (destroy ?t')
       = [Invoke_func, Set_result 42, Destroy_func, Store_state completed, Flush_and_lock,
          Destroy_result, Free_node]"
    by (simp add: events_destroy)
  from function_object_destroyed_once [OF a b c]
  have "count_list (events (destroy ?t')) Destroy_func = 1" by blast
  with a b c d show ?thesis by blast
qed

subsection \<open>The payload and the state\<close>

lemma payload_valid_simps [simp]:
  "payload_valid pending st"
  "payload_valid locked st"
  "payload_valid unwrapped st"
  "payload_valid completed st = holds_result st"
  "payload_valid canceled st = holds_except st"
  by (simp_all add: payload_valid_def)

lemma always_valid_append:
  "trace m = trace n @ xs \<Longrightarrow>
     always_valid m = (always_valid n \<and> list_all (\<lambda>(ev, s, st). payload_valid s st) xs)"
  by (simp add: always_valid_def)

lemma always_valid_steps [simp]:
  fixes n :: "('v, 'e) task_node"
  shows "always_valid (record_event ev n) = (always_valid n \<and> payload_valid (state n) (storage n))"
    and "always_valid (store_state s n) = (always_valid n \<and> payload_valid s (storage n))"
    and "always_valid (store_result v n)
           = (always_valid n \<and> payload_valid (state n) (Holds_result v :: ('v, 'e) storage))"
    and "always_valid (set_exception e n)
           = (always_valid n \<and> payload_valid (state n) (Holds_except e :: ('v, 'e) storage))"
    and "always_valid (destroy_func n) = (always_valid n \<and> payload_valid (state n) (storage n))"
  by (simp_all add: always_valid_def)

lemma always_valid_run_continuations [simp]:
  "always_valid (run_continuations n) = (always_valid n \<and> payload_valid (state n) (storage n))"
  by (simp add: always_valid_def list_all_iff) blast

lemma always_valid_hooks [simp]:
  fixes n :: "('v, 'e) task_node"
  shows "always_valid (finish n) = (always_valid n \<and> holds_result (storage n))"
    and "always_valid (cancel_base e n)
           = (always_valid n \<and> payload_valid (state n) (Holds_except e :: ('v, 'e) storage))"
    and "always_valid (cancel e n)
           = (always_valid n \<and> payload_valid (state n) (storage n)
                \<and> payload_valid (state n) (Holds_except e :: ('v, 'e) storage))"
  by (auto simp: finish_def cancel_base_def cancel_def)

lemma always_valid_deliver [simp]:
  fixes p :: "('v, 'e) task_node"
  shows "always_valid (deliver out p)
     = (always_valid p
        \<and> (case out of
              Inl e \<Rightarrow> payload_valid (state p) (Holds_except e :: ('v, 'e) storage)
            | Inr v \<Rightarrow> payload_valid (state p) (Holds_result v :: ('v, 'e) storage)))"
  by (cases out) (auto simp: deliver_def)

text \<open>
  C7, as stated, fails: in the run of a root task that returns 42, right after the result
  has been constructed the result slot holds a result while the state is still pending
  (second entry of the trace); the state completed is stored two steps later. Likewise in
  \<open>cancel_base\<close> the exception slot holds the exception while the state is still
  pending, until the next step stores the state canceled.
\<close>

theorem slots_match_state_counterexample:
  "map_option trace (run (root_exec_func (\<lambda>v. None) (Inr 42)) (new_task_func 0 :: (nat, nat) task_node))
     = Some [(Invoke_func, pending, Holds_sched 0),
             (Set_result 42, pending, Holds_result 42),
             (Destroy_func, pending, Holds_result 42),
             (Store_state completed, completed, Holds_result 42),
             (Flush_and_lock, completed, Holds_result 42)]
   \<and> \<not> slots_match_state pending (Holds_result 42 :: (nat, nat) storage)
   \<and> trace (cancel_base 7 (new_task_func 0 :: (nat, nat) task_node))
     = [(Set_exception 7, pending, Holds_except 7),
        (Store_state canceled, canceled, Holds_except 7),
        (Flush_and_lock, canceled, Holds_except 7)]
   \<and> \<not> slots_match_state pending (Holds_except 7 :: (nat, nat) storage)"
  by (simp add: run_root_returns finish_def cancel_base_def slots_match_state_def)

text \<open>
  C7, amended. A fresh task with a function, through any of the lives above. At every
  point of the life, a state completed has a constructed result in the union and a state
  canceled has an exception there (the payload is constructed before the state is stored,
  so the converse fails in between). Once the life's last hook has returned, the result is
  alive iff the state is completed and the exception iff the state is canceled. The
  destruction then runs the destructor of the result exactly when the state is completed
  and the destructor of the exception exactly when the state is canceled (and that of the
  function object exactly when the state is pending), and no step before the destruction
  ran either of the two.
\<close>

theorem payload_valid_throughout:
  assumes "live mv l t = Some t'" and "fresh_child l" and "fresh_task t"
  shows "always_valid t'
         \<and> slots_match_state (state t') (storage t')
         \<and> events (destroy t')
             = events t' @ (if state t' = pending then [Destroy_func] else [])
                 @ (if state t' = canceled then [Destroy_exception] else [])
                 @ (if state t' = completed then [Destroy_result] else [])
                 @ [Free_node]
         \<and> count_list (events (destroy t')) Destroy_result = (if state t' = completed then 1 else 0)
         \<and> count_list (events (destroy t')) Destroy_exception = (if state t' = canceled then 1 else 0)"
proof -
  note f = fresh_task_fields [OF assms(3)]
  have v0: "always_valid t" using f by (simp add: always_valid_def)
  have main: "always_valid t' \<and> slots_match_state (state t') (storage t')
              \<and> count_list (events t') Destroy_result = 0
              \<and> count_list (events t') Destroy_exception = 0"
    using live_forms [OF assms(1,2)]
  proof (elim disjE exE)
    assume "t' = t"
    then show ?thesis using f v0 by (simp add: slots_match_state_def)
  next
    fix e assume "t' = cancel e t"
    then show ?thesis using f v0 by (simp add: slots_match_state_def)
  next
    fix e assume "t' = cancel e (record_event Invoke_func t)"
    then show ?thesis using f v0 by (simp add: slots_match_state_def)
  next
    fix v assume "t' = finish (destroy_func (store_result v (record_event Invoke_func t)))"
    then show ?thesis using f v0 by (simp add: slots_match_state_def)
  next
    assume "t' = destroy_func (store_state unwrapped (record_event Invoke_func t))"
    then show ?thesis using f v0 by (simp add: slots_match_state_def)
  next
    fix out assume "t' = deliver out (destroy_func (store_state unwrapped (record_event Invoke_func t)))"
    then show ?thesis using f v0 by (cases out) (simp_all add: slots_match_state_def)
  qed
  then show ?thesis by (simp add: events_destroy)
qed

theorem payload_valid_throughout_witness:
  "live (\<lambda>v. None) (Run_root (Inl 7) :: (nat, nat, nat) lifetime) (new_task_func 0)
     = Some (cancel 7 (record_event Invoke_func (new_task_func 0)))
   \<and> fresh_child (Run_root (Inl 7) :: (nat, nat, nat) lifetime)
   \<and> fresh_task (new_task_func 0 :: (nat, nat) task_node)
   \<and> always_valid (cancel 7 (record_event Invoke_func (new_task_func 0 :: (nat, nat) task_node)))
   \<and> events (destroy (cancel 7 (record_event Invoke_func (new_task_func 0 :: (nat, nat) task_node))))
       = [Invoke_func, Destroy_func, Set_exception 7, Store_state canceled, Flush_and_lock,
          Destroy_exception, Free_node]"
proof -
  let ?l = "Run_root (Inl 7) :: (nat, nat, nat) lifetime"
  let ?t = "new_task_func 0 :: (nat, nat) task_node"
  let ?t' = "cancel 7 (record_event Invoke_func ?t)"
  have a: "live (\<lambda>v. None) ?l ?t = Some ?t'" by (simp add: run_root_throws)
  have b: "fresh_child ?l" by simp
  have c: "fresh_task ?t" by (simp add: fresh_task_def)
  from payload_valid_throughout [OF a b c]
  have "always_valid ?t'"
    and "events (destroy ?t')
             = events ?t' @ (if state ?t' = pending then [Destroy_func] else [])
                 @ (if state ?t' = canceled then [Destroy_exception] else [])
                 @ (if state ?t' = completed then [Destroy_result] else [])
                 @ [Free_node]"
    by blast+
  then have "always_valid ?t'
     \<and> events (destroy ?t')
       = [Invoke_func, Destroy_func, Set_exception 7, Store_state canceled, Flush_and_lock,
          Destroy_exception, Free_node]"
    by simp
  with a b c show ?thesis by blast
qed


section \<open>Properties of the race between registration and the terminal transition\<close>













subsection \<open>Nothing is scheduled before the final store\<close>




















subsection \<open>Every interleaving comes to an end\<close>







subsection \<open>The steps against the functions run alone\<close>







subsection \<open>Exactly once\<close>






end
